theory Spec2Isabelle
  imports Main "HOL-Library.Word"
begin

unbundle bit_operations_syntax

section \<open>The C99 dynamic string of string_utf8.c\<close>

text \<open>
  The translation unit \<^verbatim>\<open>string_utf8.c\<close> is embedded function by function.
  \<^item> \<^verbatim>\<open>char\<close> and \<^verbatim>\<open>unsigned char\<close> are 8-bit words, \<^verbatim>\<open>size_t\<close> is a
    64-bit word (an LP64 target) and \<^verbatim>\<open>uint32_t\<close> a 32-bit word, so every
    \<^verbatim>\<open>+\<close>, \<^verbatim>\<open>*\<close> and \<^verbatim>\<open>-\<close> of the source wraps as it does in C.
  \<^item> A \<^verbatim>\<open>char*\<close> is \<open>None\<close> for \<^verbatim>\<open>NULL\<close> and otherwise \<open>Some blk\<close>, where
    \<open>blk\<close> is the block of bytes the pointer points to; the length of the list is the
    size that was really allocated.
  \<^item> A read or write outside the block is undefined behaviour in C; here it is the
    value \<open>Inl OutOfBounds\<close>, and every function that touches memory returns a sum.
  \<^item> A \<^verbatim>\<open>String*\<close> is a \<open>String option\<close>; a function that mutates through the
    pointer returns the new value of the object (\<open>None\<close> when the pointer was
    \<^verbatim>\<open>NULL\<close> and nothing was touched).
  \<^item> Each call of \<^verbatim>\<open>malloc\<close> or \<^verbatim>\<open>realloc\<close> takes its outcome as a parameter:
    \<open>None\<close> when the allocator fails, \<open>Some f\<close> when it succeeds, \<open>f\<close> giving
    the indeterminate bytes of the fresh storage.
\<close>

type_synonym byte = "8 word"
type_synonym size_t = "64 word"
type_synonym uint32_t = "32 word"
type_synonym cptr = "byte list option"
type_synonym alloc = "(nat \<Rightarrow> byte) option"

datatype fault = OutOfBounds

text \<open>Modelled from the spec: the declaration of \<^verbatim>\<open>String\<close> is in
  \<^verbatim>\<open>string_utf8.h\<close>, which is not among the sources. Section 3 of the specification
  gives the buffer its storage, its length and its capacity; the names and the types of
  the three fields are those the code uses.\<close>

record String =
  data :: cptr
  len :: size_t
  cap :: size_t

text \<open>Sequencing of steps that may fault: the first fault ends the call.\<close>

definition and_then :: "fault + 'a \<Rightarrow> ('a \<Rightarrow> fault + 'b) \<Rightarrow> fault + 'b" where
  "and_then m f = (case m of Inl e \<Rightarrow> Inl e | Inr x \<Rightarrow> f x)"

subsection \<open>Memory primitives\<close>

definition load :: "byte list \<Rightarrow> nat \<Rightarrow> fault + byte" where
  "load blk i = (if i < length blk then Inr (blk ! i) else Inl OutOfBounds)"

definition store :: "byte list \<Rightarrow> nat \<Rightarrow> byte \<Rightarrow> fault + byte list" where
  "store blk i v = (if i < length blk then Inr (blk[i := v]) else Inl OutOfBounds)"

text \<open>\<^verbatim>\<open>memcpy(dst + off, src, n)\<close> between two distinct blocks.\<close>

definition memcpy :: "byte list \<Rightarrow> nat \<Rightarrow> byte list \<Rightarrow> nat \<Rightarrow> fault + byte list" where
  "memcpy dst off src n =
     (if off + n \<le> length dst \<and> n \<le> length src
      then Inr (take off dst @ take n src @ drop (off + n) dst)
      else Inl OutOfBounds)"

text \<open>\<^verbatim>\<open>memmove(p, p + off, n)\<close> inside one block.\<close>

definition memmove_down :: "byte list \<Rightarrow> nat \<Rightarrow> nat \<Rightarrow> fault + byte list" where
  "memmove_down blk off n =
     (if off + n \<le> length blk
      then Inr (take n (drop off blk) @ drop n blk)
      else Inl OutOfBounds)"

text \<open>\<^verbatim>\<open>strlen\<close>: the offset of the first zero byte; a block without one is read past
  its end.\<close>

fun strlen :: "byte list \<Rightarrow> fault + nat" where
  "strlen [] = Inl OutOfBounds"
| "strlen (b # bs) =
     (if b = 0 then Inr 0
      else (case strlen bs of Inl e \<Rightarrow> Inl e | Inr n \<Rightarrow> Inr (Suc n)))"

definition malloc :: "alloc \<Rightarrow> size_t \<Rightarrow> cptr" where
  "malloc a n = (case a of None \<Rightarrow> None | Some f \<Rightarrow> Some (map f [0..<unat n]))"

definition realloc :: "alloc \<Rightarrow> cptr \<Rightarrow> size_t \<Rightarrow> cptr" where
  "realloc a p n =
     (case a of
        None \<Rightarrow> None
      | Some f \<Rightarrow>
          (case p of
             None \<Rightarrow> Some (map f [0..<unat n])
           | Some old \<Rightarrow> Some (take (unat n) old @ map f [length old..<unat n])))"

subsection \<open>UTF-8 validation\<close>

text \<open>The chain of tests on the lead byte: the seed of the code point and
  \<^verbatim>\<open>extraBytes\<close>, or \<open>None\<close> for the final \<^verbatim>\<open>return false\<close>.\<close>

definition lead_byte :: "byte \<Rightarrow> (uint32_t \<times> size_t) option" where
  "lead_byte b0 =
     (if b0 \<le> 0x7F then Some (ucast b0, 0)
      else if b0 \<ge> 0xC2 \<and> b0 \<le> 0xDF then Some (ucast (b0 AND 0x1F), 1)
      else if b0 \<ge> 0xE0 \<and> b0 \<le> 0xEF then Some (ucast (b0 AND 0x0F), 2)
      else if b0 \<ge> 0xF0 \<and> b0 \<le> 0xF4 then Some (ucast (b0 AND 0x07), 3)
      else None)"

text \<open>The \<^verbatim>\<open>for\<close> loop over the continuation bytes; \<open>Inr None\<close> is its
  \<^verbatim>\<open>return false\<close>.\<close>

function read_continuation ::
  "byte list \<Rightarrow> size_t \<Rightarrow> size_t \<Rightarrow> size_t \<Rightarrow> uint32_t \<Rightarrow> fault + uint32_t option" where
  "read_continuation d i extraBytes j codepoint =
     (if j < extraBytes then
        (case load d (unat (i + 1 + j)) of
           Inl e \<Rightarrow> Inl e
         | Inr bx \<Rightarrow>
             if bx AND 0xC0 \<noteq> 0x80 then Inr None
             else read_continuation d i extraBytes (j + 1)
                    (push_bit 6 codepoint OR ucast (bx AND 0x3F)))
      else Inr (Some codepoint))"
  by pat_completeness auto
termination
proof (relation "measure (\<lambda>(d, i, extraBytes, j, codepoint). unat extraBytes - unat j)")
  show "wf (measure (\<lambda>(d, i, extraBytes, j, codepoint). unat extraBytes - unat j))"
    by simp
next
  fix d :: "byte list" and i extraBytes j :: size_t and codepoint :: uint32_t and bx :: byte
  assume lt: "j < extraBytes"
  then have "unat j < unat extraBytes"
    by (simp add: word_less_nat_alt)
  moreover have "unat (j + 1) = unat j + 1"
    using lt by unat_arith
  ultimately show "((d, i, extraBytes, j + 1, push_bit 6 codepoint OR ucast (bx AND 0x3F)),
      (d, i, extraBytes, j, codepoint))
    \<in> measure (\<lambda>(d, i, extraBytes, j, codepoint). unat extraBytes - unat j)"
    by simp
qed

declare read_continuation.simps [simp del]

text \<open>The \<^verbatim>\<open>switch (extraBytes)\<close>: \<open>False\<close> where a case returns false.\<close>

definition range_check :: "size_t \<Rightarrow> uint32_t \<Rightarrow> bool" where
  "range_check extraBytes codepoint =
     (if extraBytes = 1 then \<not> codepoint < 0x80
      else if extraBytes = 2 then
        \<not> codepoint < 0x800 \<and> \<not> (codepoint \<ge> 0xD800 \<and> codepoint \<le> 0xDFFF)
      else if extraBytes = 3 then \<not> codepoint < 0x10000 \<and> \<not> codepoint > 0x10FFFF
      else True)"

text \<open>The \<^verbatim>\<open>while (i < length)\<close> loop. Its index is a 64-bit word that may wrap,
  so the loop is a partial function: \<open>None\<close> is "does not return".\<close>

partial_function (option) utf8_scan ::
  "byte list \<Rightarrow> size_t \<Rightarrow> size_t \<Rightarrow> (fault + bool) option" where
  "utf8_scan d n i =
     (if i < n then
        (case load d (unat i) of
           Inl e \<Rightarrow> Some (Inl e)
         | Inr b0 \<Rightarrow>
             (case lead_byte b0 of
                None \<Rightarrow> Some (Inr False)
              | Some (codepoint0, extraBytes) \<Rightarrow>
                  if i + extraBytes \<ge> n then Some (Inr False)
                  else
                    (case read_continuation d i extraBytes 0 codepoint0 of
                       Inl e \<Rightarrow> Some (Inl e)
                     | Inr None \<Rightarrow> Some (Inr False)
                     | Inr (Some codepoint) \<Rightarrow>
                         if range_check extraBytes codepoint
                         then utf8_scan d n (i + (extraBytes + 1))
                         else Some (Inr False))))
      else Some (Inr True))"

definition utf8_validate :: "cptr \<Rightarrow> size_t \<Rightarrow> (fault + bool) option" where
  "utf8_validate p n = (case p of None \<Rightarrow> Some (Inr True) | Some d \<Rightarrow> utf8_scan d n 0)"

definition str_validate_utf8 :: "String option \<Rightarrow> (fault + bool) option" where
  "str_validate_utf8 s =
     (case s of None \<Rightarrow> Some (Inr True) | Some s' \<Rightarrow> utf8_validate (data s') (len s'))"

text \<open>\<^verbatim>\<open>str_preflight_utf8\<close> also prints one line; the line is returned with the
  result.\<close>

definition str_preflight_utf8 :: "String option \<Rightarrow> (fault + bool \<times> string list) option" where
  "str_preflight_utf8 s =
     (case s of
        None \<Rightarrow> Some (Inr (True, []))
      | Some s' \<Rightarrow>
          (case data s' of
             None \<Rightarrow> Some (Inr (True, []))
           | Some d \<Rightarrow>
               (case utf8_validate (data s') (len s') of
                  None \<Rightarrow> None
                | Some (Inl e) \<Rightarrow> Some (Inl e)
                | Some (Inr ok) \<Rightarrow>
                    if \<not> ok
                    then Some (Inr (ok, [''Preflight failed: string is not valid UTF-8.'' @ [CHR 0x0A]]))
                    else Some (Inr (ok, [''Preflight success: string is valid UTF-8.'' @ [CHR 0x0A]])))))"

subsection \<open>Construction, release, growth\<close>

definition str_init :: String where
  "str_init = \<lparr>data = None, len = 0, cap = 0\<rparr>"

definition str_from_cstr :: "cptr \<Rightarrow> alloc \<Rightarrow> fault + String" where
  "str_from_cstr cstr a =
     (case cstr of
        None \<Rightarrow> Inr str_init
      | Some src \<Rightarrow>
          and_then (strlen src) (\<lambda>l.
            let length' = (of_nat l :: size_t);
                s = str_init\<lparr>cap := length' + 1\<rparr>;
                s = s\<lparr>data := malloc a (cap s)\<rparr>
            in (case data s of
                  None \<Rightarrow> Inr s
                | Some blk \<Rightarrow>
                    and_then (memcpy blk 0 src (unat (cap s))) (\<lambda>blk'.
                      Inr (s\<lparr>data := Some blk', len := length'\<rparr>)))))"

definition str_free :: "String option \<Rightarrow> String option" where
  "str_free s =
     (case s of
        None \<Rightarrow> None
      | Some s' \<Rightarrow> Some (s'\<lparr>data := None, len := 0, cap := 0\<rparr>))"

text \<open>The empty string literal \<^verbatim>\<open>""\<close> is a one-byte block holding the terminator.\<close>

definition str_data :: "String option \<Rightarrow> cptr" where
  "str_data s =
     (case s of
        None \<Rightarrow> Some [0]
      | Some s' \<Rightarrow> (case data s' of None \<Rightarrow> Some [0] | Some blk \<Rightarrow> Some blk))"

definition str_reserve :: "String option \<Rightarrow> size_t \<Rightarrow> alloc \<Rightarrow> String option" where
  "str_reserve s new_cap a =
     (case s of
        None \<Rightarrow> None
      | Some s' \<Rightarrow>
          if new_cap > cap s' then
            (case realloc a (data s') new_cap of
               None \<Rightarrow> Some s'
             | Some tmp \<Rightarrow> Some (s'\<lparr>data := Some tmp, cap := new_cap\<rparr>))
          else Some s')"

definition str_push_back :: "String option \<Rightarrow> byte \<Rightarrow> alloc \<Rightarrow> fault + String option" where
  "str_push_back s c a =
     (case s of
        None \<Rightarrow> Inr None
      | Some s0 \<Rightarrow>
          (case (if len s0 + 1 \<ge> cap s0
                 then str_reserve s (if cap s0 = 0 then 2 else cap s0 * 2) a
                 else s) of
             None \<Rightarrow> Inr None
           | Some s1 \<Rightarrow>
               (case data s1 of
                  None \<Rightarrow> Inr (Some s1)
                | Some blk \<Rightarrow>
                    and_then (store blk (unat (len s1)) c) (\<lambda>blk1.
                      let len1 = len s1 + 1 in
                      and_then (store blk1 (unat len1) 0) (\<lambda>blk2.
                        Inr (Some (s1\<lparr>data := Some blk2, len := len1\<rparr>)))))))"

text \<open>\<^verbatim>\<open>str_concat(dest, src)\<close> for two distinct objects; the result is the new value
  of \<^verbatim>\<open>*dest\<close>.\<close>

definition str_concat :: "String option \<Rightarrow> String option \<Rightarrow> alloc \<Rightarrow> fault + String option" where
  "str_concat dest src a =
     (case dest of
        None \<Rightarrow> Inr None
      | Some d0 \<Rightarrow>
          (case src of
             None \<Rightarrow> Inr dest
           | Some s0 \<Rightarrow>
               (case data s0 of
                  None \<Rightarrow> Inr dest
                | Some sblk \<Rightarrow>
                    let needed = len d0 + len s0 + 1 in
                    (case (if needed > cap d0 then str_reserve dest needed a else dest) of
                       None \<Rightarrow> Inr None
                     | Some d1 \<Rightarrow>
                         (case data d1 of
                            None \<Rightarrow> Inr (Some d1)
                          | Some dblk \<Rightarrow>
                              and_then (memcpy dblk (unat (len d1)) sblk (unat (len s0 + 1)))
                                (\<lambda>dblk'. Inr (Some (d1\<lparr>data := Some dblk',
                                                        len := len d1 + len s0\<rparr>))))))))"

definition str_plus :: "String option \<Rightarrow> String option \<Rightarrow> alloc \<Rightarrow> fault + String" where
  "str_plus s1 s2 a =
     (case (case s1 of None \<Rightarrow> None | Some x \<Rightarrow> data x) of
        None \<Rightarrow> str_from_cstr (str_data s2) a
      | Some d1 \<Rightarrow>
          (case (case s2 of None \<Rightarrow> None | Some y \<Rightarrow> data y) of
             None \<Rightarrow> str_from_cstr (str_data s1) a
           | Some d2 \<Rightarrow>
               let len1 = (case s1 of None \<Rightarrow> 0 | Some x \<Rightarrow> len x);
                   len2 = (case s2 of None \<Rightarrow> 0 | Some y \<Rightarrow> len y);
                   total_len = len1 + len2;
                   result = str_init\<lparr>cap := total_len + 1\<rparr>;
                   result = result\<lparr>data := malloc a (cap result)\<rparr>
               in (case data result of
                     None \<Rightarrow> Inr result
                   | Some r \<Rightarrow>
                       and_then (memcpy r 0 d1 (unat len1)) (\<lambda>r1.
                         and_then (memcpy r1 (unat len1) d2 (unat (len2 + 1))) (\<lambda>r2.
                           Inr (result\<lparr>data := Some r2, len := total_len\<rparr>))))))"

subsection \<open>Normalisers\<close>

definition str_remove_utf8_bom :: "String option \<Rightarrow> fault + String option \<times> bool" where
  "str_remove_utf8_bom s =
     (case s of
        None \<Rightarrow> Inr (None, False)
      | Some s0 \<Rightarrow>
          (case data s0 of
             None \<Rightarrow> Inr (s, False)
           | Some blk \<Rightarrow>
               if len s0 < 3 then Inr (s, False)
               else
                 and_then (load blk 0) (\<lambda>b0.
                 and_then (load blk 1) (\<lambda>b1.
                 and_then (load blk 2) (\<lambda>b2.
                   if b0 = 0xEF \<and> b1 = 0xBB \<and> b2 = 0xBF then
                     let new_len = len s0 - 3 in
                     and_then (memmove_down blk 3 (unat new_len)) (\<lambda>blk1.
                     and_then (store blk1 (unat new_len) 0) (\<lambda>blk2.
                       Inr (Some (s0\<lparr>data := Some blk2, len := new_len\<rparr>), True)))
                   else Inr (s, False))))))"

text \<open>The \<^verbatim>\<open>while (s->len > 0)\<close> loop of \<^verbatim>\<open>str_strip_crlf\<close> on the block and
  the length field.\<close>

function strip_loop :: "byte list \<Rightarrow> size_t \<Rightarrow> fault + byte list \<times> size_t" where
  "strip_loop blk l =
     (if l > 0 then
        (case load blk (unat (l - 1)) of
           Inl e \<Rightarrow> Inl e
         | Inr last_char \<Rightarrow>
             if last_char = 0x0A \<or> last_char = 0x0D then
               (case store blk (unat (l - 1)) 0 of
                  Inl e \<Rightarrow> Inl e
                | Inr blk' \<Rightarrow> strip_loop blk' (l - 1))
             else Inr (blk, l))
      else Inr (blk, l))"
  by pat_completeness auto
termination
proof (relation "measure (\<lambda>(blk, l). unat l)")
  show "wf (measure (\<lambda>(blk, l). unat l))"
    by simp
next
  fix blk blk' :: "byte list" and l :: size_t
  assume "0 < l"
  then have "unat (l - 1) < unat l"
    by unat_arith
  then show "((blk', l - 1), (blk, l)) \<in> measure (\<lambda>(blk, l). unat l)"
    by simp
qed

declare strip_loop.simps [simp del]

definition str_strip_crlf :: "String option \<Rightarrow> fault + String option" where
  "str_strip_crlf s =
     (case s of
        None \<Rightarrow> Inr None
      | Some s0 \<Rightarrow>
          (case data s0 of
             None \<Rightarrow> Inr s
           | Some blk \<Rightarrow>
               if len s0 = 0 then Inr s
               else
                 and_then (strip_loop blk (len s0)) (\<lambda>(blk', l').
                   Inr (Some (s0\<lparr>data := Some blk', len := l'\<rparr>)))))"

section \<open>Specification-side notions\<close>

subsection \<open>Well-formed UTF-8\<close>

text \<open>Well-formedness as the specification words it, on the byte sequence alone and
  with the decoded code point as a natural number: a continuation byte has the top bits
  \<open>10\<close> and carries six bits; a sequence of two, three or four bytes decodes to the
  bits of its lead byte followed by the bits of its continuation bytes.\<close>

definition continuation :: "byte \<Rightarrow> bool" where
  "continuation b = (unat b div 64 = 2)"

definition payload :: "byte \<Rightarrow> nat" where
  "payload b = unat b mod 64"

definition decode2 :: "byte \<Rightarrow> byte \<Rightarrow> nat" where
  "decode2 b0 b1 = (unat b0 mod 32) * 64 + payload b1"

definition decode3 :: "byte \<Rightarrow> byte \<Rightarrow> byte \<Rightarrow> nat" where
  "decode3 b0 b1 b2 = (unat b0 mod 16) * 4096 + payload b1 * 64 + payload b2"

definition decode4 :: "byte \<Rightarrow> byte \<Rightarrow> byte \<Rightarrow> byte \<Rightarrow> nat" where
  "decode4 b0 b1 b2 b3 =
     (unat b0 mod 8) * 262144 + payload b1 * 4096 + payload b2 * 64 + payload b3"

inductive well_formed_utf8 :: "byte list \<Rightarrow> bool" where
  wf_empty: "well_formed_utf8 []"
| wf_one: "b0 \<le> 0x7F \<Longrightarrow> well_formed_utf8 rest \<Longrightarrow> well_formed_utf8 (b0 # rest)"
| wf_two:
    "0xC2 \<le> b0 \<Longrightarrow> b0 \<le> 0xDF \<Longrightarrow> continuation b1 \<Longrightarrow>
     0x80 \<le> decode2 b0 b1 \<Longrightarrow>
     well_formed_utf8 rest \<Longrightarrow> well_formed_utf8 (b0 # b1 # rest)"
| wf_three:
    "0xE0 \<le> b0 \<Longrightarrow> b0 \<le> 0xEF \<Longrightarrow> continuation b1 \<Longrightarrow> continuation b2 \<Longrightarrow>
     0x800 \<le> decode3 b0 b1 b2 \<Longrightarrow>
     \<not> (0xD800 \<le> decode3 b0 b1 b2 \<and> decode3 b0 b1 b2 \<le> 0xDFFF) \<Longrightarrow>
     well_formed_utf8 rest \<Longrightarrow> well_formed_utf8 (b0 # b1 # b2 # rest)"
| wf_four:
    "0xF0 \<le> b0 \<Longrightarrow> b0 \<le> 0xF4 \<Longrightarrow>
     continuation b1 \<Longrightarrow> continuation b2 \<Longrightarrow> continuation b3 \<Longrightarrow>
     0x10000 \<le> decode4 b0 b1 b2 b3 \<Longrightarrow> decode4 b0 b1 b2 b3 \<le> 0x10FFFF \<Longrightarrow>
     well_formed_utf8 rest \<Longrightarrow> well_formed_utf8 (b0 # b1 # b2 # b3 # rest)"

code_pred well_formed_utf8 .

text \<open>The grammar of RFC 3629, section 4, octet by octet: \<open>UTF8-tail\<close> and the
  nine alternatives of \<open>UTF8-1\<close> to \<open>UTF8-4\<close>.\<close>

definition utf8_tail :: "byte \<Rightarrow> bool" where
  "utf8_tail b = (0x80 \<le> b \<and> b \<le> 0xBF)"

inductive utf8_octets :: "byte list \<Rightarrow> bool" where
  octets_empty: "utf8_octets []"
| octets_1: "b0 \<le> 0x7F \<Longrightarrow> utf8_octets r \<Longrightarrow> utf8_octets (b0 # r)"
| octets_2: "0xC2 \<le> b0 \<Longrightarrow> b0 \<le> 0xDF \<Longrightarrow> utf8_tail b1 \<Longrightarrow> utf8_octets r \<Longrightarrow>
     utf8_octets (b0 # b1 # r)"
| octets_3a: "b0 = 0xE0 \<Longrightarrow> 0xA0 \<le> b1 \<Longrightarrow> b1 \<le> 0xBF \<Longrightarrow> utf8_tail b2 \<Longrightarrow>
     utf8_octets r \<Longrightarrow> utf8_octets (b0 # b1 # b2 # r)"
| octets_3b: "0xE1 \<le> b0 \<Longrightarrow> b0 \<le> 0xEC \<Longrightarrow> utf8_tail b1 \<Longrightarrow> utf8_tail b2 \<Longrightarrow>
     utf8_octets r \<Longrightarrow> utf8_octets (b0 # b1 # b2 # r)"
| octets_3c: "b0 = 0xED \<Longrightarrow> 0x80 \<le> b1 \<Longrightarrow> b1 \<le> 0x9F \<Longrightarrow> utf8_tail b2 \<Longrightarrow>
     utf8_octets r \<Longrightarrow> utf8_octets (b0 # b1 # b2 # r)"
| octets_3d: "0xEE \<le> b0 \<Longrightarrow> b0 \<le> 0xEF \<Longrightarrow> utf8_tail b1 \<Longrightarrow> utf8_tail b2 \<Longrightarrow>
     utf8_octets r \<Longrightarrow> utf8_octets (b0 # b1 # b2 # r)"
| octets_4a: "b0 = 0xF0 \<Longrightarrow> 0x90 \<le> b1 \<Longrightarrow> b1 \<le> 0xBF \<Longrightarrow> utf8_tail b2 \<Longrightarrow>
     utf8_tail b3 \<Longrightarrow> utf8_octets r \<Longrightarrow> utf8_octets (b0 # b1 # b2 # b3 # r)"
| octets_4b: "0xF1 \<le> b0 \<Longrightarrow> b0 \<le> 0xF3 \<Longrightarrow> utf8_tail b1 \<Longrightarrow> utf8_tail b2 \<Longrightarrow>
     utf8_tail b3 \<Longrightarrow> utf8_octets r \<Longrightarrow> utf8_octets (b0 # b1 # b2 # b3 # r)"
| octets_4c: "b0 = 0xF4 \<Longrightarrow> 0x80 \<le> b1 \<Longrightarrow> b1 \<le> 0x8F \<Longrightarrow> utf8_tail b2 \<Longrightarrow>
     utf8_tail b3 \<Longrightarrow> utf8_octets r \<Longrightarrow> utf8_octets (b0 # b1 # b2 # b3 # r)"

subsection \<open>The buffer as the specification sees it\<close>

text \<open>The logical bytes of a buffer: the first \<open>len\<close> bytes of its storage.\<close>

definition str_bytes :: "String \<Rightarrow> byte list" where
  "str_bytes s = (case data s of None \<Rightarrow> [] | Some blk \<Rightarrow> take (unat (len s)) blk)"

text \<open>The invariant of section 3 of the specification; the capacity is the size of the
  storage.\<close>

definition str_inv :: "String \<Rightarrow> bool" where
  "str_inv s =
     (case data s of
        None \<Rightarrow> len s = 0 \<and> cap s = 0
      | Some blk \<Rightarrow> length blk = unat (cap s) \<and> len s < cap s \<and> blk ! unat (len s) = 0)"

definition utf8_bom :: "byte list" where
  "utf8_bom = [0xEF, 0xBB, 0xBF]"

definition is_crlf :: "byte \<Rightarrow> bool" where
  "is_crlf b = (b = 0x0A \<or> b = 0x0D)"

text \<open>The longest prefix whose last byte is neither CR nor LF.\<close>

definition strip_trailing :: "byte list \<Rightarrow> byte list" where
  "strip_trailing bs = rev (dropWhile is_crlf (rev bs))"

subsection \<open>The scan on the bytes that remain\<close>

text \<open>The two loops of \<^verbatim>\<open>utf8_validate\<close> once more, on the list of the bytes from
  the index on instead of the block and the index. They link the code to
  \<^const>\<open>well_formed_utf8\<close>.\<close>

definition accumulate :: "uint32_t \<Rightarrow> byte \<Rightarrow> uint32_t" where
  "accumulate codepoint bx = push_bit 6 codepoint OR ucast (bx AND 0x3F)"

fun continuation_list :: "byte list \<Rightarrow> uint32_t \<Rightarrow> uint32_t option" where
  "continuation_list [] codepoint = Some codepoint"
| "continuation_list (bx # bs) codepoint =
     (if bx AND 0xC0 \<noteq> 0x80 then None
      else continuation_list bs (accumulate codepoint bx))"

function scan_list :: "byte list \<Rightarrow> bool" where
  "scan_list [] = True"
| "scan_list (b0 # rest) =
     (case lead_byte b0 of
        None \<Rightarrow> False
      | Some (codepoint0, extraBytes) \<Rightarrow>
          if length rest < unat extraBytes then False
          else
            (case continuation_list (take (unat extraBytes) rest) codepoint0 of
               None \<Rightarrow> False
             | Some codepoint \<Rightarrow>
                 if range_check extraBytes codepoint
                 then scan_list (drop (unat extraBytes) rest)
                 else False))"
  by pat_completeness auto
termination
  by (relation "measure length") auto

subsection \<open>Buffers behind a pointer\<close>

text \<open>The logical bytes, the invariant and the presence of storage for an argument of
  type \<^verbatim>\<open>const String*\<close>: a null pointer has no bytes and no storage.\<close>

definition opt_bytes :: "String option \<Rightarrow> byte list" where
  "opt_bytes sp = (case sp of None \<Rightarrow> [] | Some s \<Rightarrow> str_bytes s)"

definition opt_inv :: "String option \<Rightarrow> bool" where
  "opt_inv sp = (case sp of None \<Rightarrow> True | Some s \<Rightarrow> str_inv s)"

definition has_storage :: "String option \<Rightarrow> bool" where
  "has_storage sp = (case sp of None \<Rightarrow> False | Some s \<Rightarrow> data s \<noteq> None)"

subsection \<open>The normalised buffers\<close>

text \<open>The storage after \<^verbatim>\<open>str_remove_utf8_bom\<close> has found a BOM in a buffer of
  length \<open>n\<close>, and the buffer it leaves.\<close>

definition bom_shift :: "byte list \<Rightarrow> nat \<Rightarrow> byte list" where
  "bom_shift blk n = (take (n - 3) (drop 3 blk) @ drop (n - 3) blk)[n - 3 := 0]"

definition bom_removed :: "String \<Rightarrow> String" where
  "bom_removed s =
     (case data s of
        None \<Rightarrow> s
      | Some blk \<Rightarrow> s\<lparr>data := Some (bom_shift blk (unat (len s))), len := len s - 3\<rparr>)"

text \<open>The storage and the length after \<^verbatim>\<open>str_strip_crlf\<close> on a buffer of length
  \<open>n\<close>: every stripped byte has been overwritten with the terminator.\<close>

definition strip_block :: "byte list \<Rightarrow> nat \<Rightarrow> byte list" where
  "strip_block blk n =
     (let k = length (strip_trailing (take n blk))
      in take k blk @ replicate (n - k) 0 @ drop n blk)"

definition strip_length :: "byte list \<Rightarrow> nat \<Rightarrow> nat" where
  "strip_length blk n = length (strip_trailing (take n blk))"

definition stripped :: "String \<Rightarrow> String" where
  "stripped s =
     (case data s of
        None \<Rightarrow> s
      | Some blk \<Rightarrow>
          s\<lparr>data := Some (strip_block blk (unat (len s))),
            len := of_nat (strip_length blk (unat (len s)))\<rparr>)"

section \<open>UTF-8 validation is well-formedness\<close>

subsection \<open>Bytes and their bits\<close>

lemma byte_cases: "(\<And>k. k < 256 \<Longrightarrow> P (of_nat k :: byte)) \<Longrightarrow> P b"
proof -
  assume h: "\<And>k. k < 256 \<Longrightarrow> P (of_nat k :: byte)"
  have "unat b < 256" using unsigned_less[of b] by simp
  from h[OF this] show ?thesis by simp
qed

lemma and_mask_take_bit:
  "(b::byte) AND 0x3F = take_bit 6 b"
  "(b::byte) AND 0x1F = take_bit 5 b"
  "(b::byte) AND 0x0F = take_bit 4 b"
  "(b::byte) AND 0x07 = take_bit 3 b"
  by (simp_all add: take_bit_eq_mask mask_eq_exp_minus_1)

lemma unat_take_bit_byte: "unat (take_bit k (b::byte)) = unat b mod 2 ^ k"
  unfolding unsigned_take_bit_eq by (rule take_bit_eq_mod)

lemma unat_ucast_byte: "unat (ucast (b::byte) :: uint32_t) = unat b"
proof -
  have "unat b < 2 ^ 8" using unsigned_less[of b, where ?'a = nat] by simp
  then show ?thesis by (simp add: unsigned_ucast_eq take_bit_nat_eq_self_iff)
qed

lemma shift_or_add: "push_bit 6 (c::uint32_t) OR take_bit 6 y = push_bit 6 c + take_bit 6 y"
  by (rule disjunctive_add[symmetric]) (auto simp: bit_push_bit_iff bit_take_bit_iff)

lemma low6_eq: "(ucast (bx AND 0x3F :: byte) :: uint32_t) = take_bit 6 (ucast bx)"
  by (simp add: and_mask_take_bit unsigned_take_bit_eq)

lemma unat_low6: "unat (ucast (bx AND 0x3F :: byte) :: uint32_t) = payload bx"
  by (simp add: unat_ucast_byte and_mask_take_bit unat_take_bit_byte payload_def)

lemma shift_in:
  assumes "unat (c::uint32_t) < 2 ^ 26"
  shows "unat (accumulate c bx) = unat c * 64 + payload bx"
proof -
  have p: "payload bx < 64" by (simp add: payload_def)
  have "unat (push_bit 6 c) = unat c * 64"
    using assms unat_mult_lem[of c 64] by (simp add: push_bit_eq_mult)
  moreover have "push_bit 6 c OR ucast (bx AND 0x3F :: byte) = push_bit 6 c + ucast (bx AND 0x3F :: byte)"
    unfolding low6_eq by (rule shift_or_add)
  moreover have "unat (push_bit 6 c + ucast (bx AND 0x3F :: byte)) = unat (push_bit 6 c) + unat (ucast (bx AND 0x3F :: byte) :: uint32_t)"
    using assms p calculation(1) by (subst unat_add_lem[symmetric]) (simp add: unat_low6)
  ultimately show ?thesis by (simp add: unat_low6 accumulate_def)
qed

lemma continuation_test: "(bx AND 0xC0 \<noteq> 0x80) = (\<not> continuation bx)"
proof -
  have "\<forall>k\<in>{..<256::nat}. ((of_nat k :: byte) AND 0xC0 = 0x80) = (k div 64 = 2)"
    by code_simp
  moreover have "unat bx < 256" using unsigned_less[of bx, where ?'a = nat] by simp
  ultimately have "((of_nat (unat bx) :: byte) AND 0xC0 = 0x80) = (unat bx div 64 = 2)"
    by blast
  then show ?thesis by (simp add: continuation_def)
qed

subsection \<open>One encoded code point\<close>

inductive_simps wf_Cons: "well_formed_utf8 (b0 # rest)"

lemma lead_ascii: "b0 \<le> 0x7F \<Longrightarrow> lead_byte b0 = Some (ucast b0, 0)"
  by (simp add: lead_byte_def)

lemma lead_two: "0xC2 \<le> b0 \<Longrightarrow> b0 \<le> 0xDF \<Longrightarrow> lead_byte b0 = Some (ucast (b0 AND 0x1F), 1)"
  by (simp add: lead_byte_def word_le_nat_alt)

lemma lead_three: "0xE0 \<le> b0 \<Longrightarrow> b0 \<le> 0xEF \<Longrightarrow> lead_byte b0 = Some (ucast (b0 AND 0x0F), 2)"
  by (simp add: lead_byte_def word_le_nat_alt)

lemma lead_four: "0xF0 \<le> b0 \<Longrightarrow> b0 \<le> 0xF4 \<Longrightarrow> lead_byte b0 = Some (ucast (b0 AND 0x07), 3)"
  by (simp add: lead_byte_def word_le_nat_alt)

lemma lead_none:
  "\<not> b0 \<le> 0x7F \<Longrightarrow> \<not> (0xC2 \<le> b0 \<and> b0 \<le> 0xDF) \<Longrightarrow> \<not> (0xE0 \<le> b0 \<and> b0 \<le> 0xEF) \<Longrightarrow>
   \<not> (0xF0 \<le> b0 \<and> b0 \<le> 0xF4) \<Longrightarrow> lead_byte b0 = None"
  by (simp add: lead_byte_def)

lemma seed_bound:
  "unat (ucast (b0 AND 0x1F :: byte) :: uint32_t) = unat b0 mod 32"
  "unat (ucast (b0 AND 0x0F :: byte) :: uint32_t) = unat b0 mod 16"
  "unat (ucast (b0 AND 0x07 :: byte) :: uint32_t) = unat b0 mod 8"
  by (simp_all add: unat_ucast_byte and_mask_take_bit unat_take_bit_byte)

lemma codepoint2:
  "unat (accumulate (ucast (b0 AND 0x1F :: byte)) b1) = decode2 b0 b1"
proof -
  have "unat (ucast (b0 AND 0x1F :: byte) :: uint32_t) < 2 ^ 26"
    unfolding seed_bound by (rule less_trans[OF mod_less_divisor]) simp_all
  from shift_in[OF this] show ?thesis by (simp add: seed_bound decode2_def)
qed

lemma codepoint3:
  "unat (accumulate (accumulate (ucast (b0 AND 0x0F :: byte)) b1) b2) = decode3 b0 b1 b2"
proof -
  have s: "unat (ucast (b0 AND 0x0F :: byte) :: uint32_t) < 16"
    unfolding seed_bound by simp
  then have "unat (ucast (b0 AND 0x0F :: byte) :: uint32_t) < 2 ^ 26" by simp
  note 1 = shift_in[OF this, of b1]
  have p: "payload b1 < 64" by (simp add: payload_def)
  have "unat (accumulate (ucast (b0 AND 0x0F :: byte)) b1) < 2 ^ 26"
    unfolding 1 using s p by simp
  from shift_in[OF this, of b2] show ?thesis
    unfolding 1 by (simp add: seed_bound decode3_def)
qed

lemma codepoint4:
  "unat (accumulate (accumulate (accumulate (ucast (b0 AND 0x07 :: byte)) b1) b2) b3) = decode4 b0 b1 b2 b3"
proof -
  have s: "unat (ucast (b0 AND 0x07 :: byte) :: uint32_t) < 8"
    unfolding seed_bound by simp
  then have "unat (ucast (b0 AND 0x07 :: byte) :: uint32_t) < 2 ^ 26" by simp
  note 1 = shift_in[OF this, of b1]
  have p1: "payload b1 < 64" and p2: "payload b2 < 64" by (simp_all add: payload_def)
  have "unat (accumulate (ucast (b0 AND 0x07 :: byte)) b1) < 2 ^ 26"
    unfolding 1 using s p1 by simp
  note 2 = shift_in[OF this, of b2]
  have "unat (accumulate (accumulate (ucast (b0 AND 0x07 :: byte)) b1) b2) < 2 ^ 26"
    unfolding 2 1 using s p1 p2 by simp
  from shift_in[OF this, of b3] show ?thesis
    unfolding 2 1 by (simp add: seed_bound decode4_def)
qed

lemma scan_ascii: "b0 \<le> 0x7F \<Longrightarrow> scan_list (b0 # rest) = scan_list rest"
  by (simp add: lead_ascii range_check_def)

lemma scan_two_short: "0xC2 \<le> b0 \<Longrightarrow> b0 \<le> 0xDF \<Longrightarrow> scan_list [b0] = False"
  by (simp add: lead_two)

lemma scan_two:
  "0xC2 \<le> b0 \<Longrightarrow> b0 \<le> 0xDF \<Longrightarrow>
   scan_list (b0 # b1 # r) = (continuation b1 \<and> 0x80 \<le> decode2 b0 b1 \<and> scan_list r)"
  by (simp add: lead_two continuation_test range_check_def word_less_nat_alt codepoint2 not_less)

lemma scan_three_short:
  "0xE0 \<le> b0 \<Longrightarrow> b0 \<le> 0xEF \<Longrightarrow> length rest < 2 \<Longrightarrow> scan_list (b0 # rest) = False"
  by (simp add: lead_three)

lemma scan_three:
  "0xE0 \<le> b0 \<Longrightarrow> b0 \<le> 0xEF \<Longrightarrow>
   scan_list (b0 # b1 # b2 # r) =
     (continuation b1 \<and> continuation b2 \<and> 0x800 \<le> decode3 b0 b1 b2 \<and>
      \<not> (0xD800 \<le> decode3 b0 b1 b2 \<and> decode3 b0 b1 b2 \<le> 0xDFFF) \<and> scan_list r)"
  by (simp add: lead_three continuation_test range_check_def word_less_nat_alt word_le_nat_alt
      codepoint3 not_less)

lemma scan_four_short:
  "0xF0 \<le> b0 \<Longrightarrow> b0 \<le> 0xF4 \<Longrightarrow> length rest < 3 \<Longrightarrow> scan_list (b0 # rest) = False"
  by (simp add: lead_four)

lemma scan_four:
  "0xF0 \<le> b0 \<Longrightarrow> b0 \<le> 0xF4 \<Longrightarrow>
   scan_list (b0 # b1 # b2 # b3 # r) =
     (continuation b1 \<and> continuation b2 \<and> continuation b3 \<and>
      0x10000 \<le> decode4 b0 b1 b2 b3 \<and> decode4 b0 b1 b2 b3 \<le> 0x10FFFF \<and> scan_list r)"
  by (auto simp add: lead_four continuation_test range_check_def word_less_nat_alt word_le_nat_alt
      codepoint4 not_less)

lemma scan_bad_lead:
  "\<not> b0 \<le> 0x7F \<Longrightarrow> \<not> (0xC2 \<le> b0 \<and> b0 \<le> 0xDF) \<Longrightarrow> \<not> (0xE0 \<le> b0 \<and> b0 \<le> 0xEF) \<Longrightarrow>
   \<not> (0xF0 \<le> b0 \<and> b0 \<le> 0xF4) \<Longrightarrow> scan_list (b0 # rest) = False"
  by (simp add: lead_none)


lemma wf_ascii: "b0 \<le> 0x7F \<Longrightarrow> well_formed_utf8 (b0 # rest) = well_formed_utf8 rest"
  by (auto simp add: wf_Cons word_le_nat_alt)

lemma wf_two_short: "0xC2 \<le> b0 \<Longrightarrow> b0 \<le> 0xDF \<Longrightarrow> well_formed_utf8 [b0] = False"
  by (auto simp add: wf_Cons word_le_nat_alt)

lemma wf_two:
  "0xC2 \<le> b0 \<Longrightarrow> b0 \<le> 0xDF \<Longrightarrow>
   well_formed_utf8 (b0 # b1 # r) = (continuation b1 \<and> 0x80 \<le> decode2 b0 b1 \<and> well_formed_utf8 r)"
  by (auto simp add: wf_Cons[of b0] word_le_nat_alt)

lemma wf_three_short:
  "0xE0 \<le> b0 \<Longrightarrow> b0 \<le> 0xEF \<Longrightarrow> length rest < 2 \<Longrightarrow> well_formed_utf8 (b0 # rest) = False"
  by (auto simp add: wf_Cons[of b0] word_le_nat_alt)

lemma wf_three:
  "0xE0 \<le> b0 \<Longrightarrow> b0 \<le> 0xEF \<Longrightarrow>
   well_formed_utf8 (b0 # b1 # b2 # r) =
     (continuation b1 \<and> continuation b2 \<and> 0x800 \<le> decode3 b0 b1 b2 \<and>
      \<not> (0xD800 \<le> decode3 b0 b1 b2 \<and> decode3 b0 b1 b2 \<le> 0xDFFF) \<and> well_formed_utf8 r)"
  by (auto simp add: wf_Cons[of b0] word_le_nat_alt)

lemma wf_four_short:
  "0xF0 \<le> b0 \<Longrightarrow> b0 \<le> 0xF4 \<Longrightarrow> length rest < 3 \<Longrightarrow> well_formed_utf8 (b0 # rest) = False"
  by (auto simp add: wf_Cons[of b0] word_le_nat_alt)

lemma wf_four:
  "0xF0 \<le> b0 \<Longrightarrow> b0 \<le> 0xF4 \<Longrightarrow>
   well_formed_utf8 (b0 # b1 # b2 # b3 # r) =
     (continuation b1 \<and> continuation b2 \<and> continuation b3 \<and>
      0x10000 \<le> decode4 b0 b1 b2 b3 \<and> decode4 b0 b1 b2 b3 \<le> 0x10FFFF \<and> well_formed_utf8 r)"
  by (auto simp add: wf_Cons[of b0] word_le_nat_alt)

lemma wf_bad_lead:
  "\<not> b0 \<le> 0x7F \<Longrightarrow> \<not> (0xC2 \<le> b0 \<and> b0 \<le> 0xDF) \<Longrightarrow> \<not> (0xE0 \<le> b0 \<and> b0 \<le> 0xEF) \<Longrightarrow>
   \<not> (0xF0 \<le> b0 \<and> b0 \<le> 0xF4) \<Longrightarrow> well_formed_utf8 (b0 # rest) = False"
  by (auto simp add: wf_Cons[of b0])

subsection \<open>The scan on lists\<close>

lemma two_more: "\<not> length (rest::'a list) < 2 \<Longrightarrow> \<exists>b1 b2 r. rest = b1 # b2 # r"
  by (cases rest; cases "tl rest") auto

lemma three_more: "\<not> length (rest::'a list) < 3 \<Longrightarrow> \<exists>b1 b2 b3 r. rest = b1 # b2 # b3 # r"
  by (cases rest; cases "tl rest"; cases "tl (tl rest)") auto

lemma scan_list_well_formed: "scan_list bs = well_formed_utf8 bs"
proof (induction bs rule: length_induct)
  case (1 bs)
  show ?case
  proof (cases bs)
    case Nil
    then show ?thesis by (simp add: wf_empty)
  next
    case (Cons b0 rest)
    consider (ascii) "b0 \<le> 0x7F"
      | (two) "0xC2 \<le> b0" "b0 \<le> 0xDF"
      | (three) "0xE0 \<le> b0" "b0 \<le> 0xEF"
      | (four) "0xF0 \<le> b0" "b0 \<le> 0xF4"
      | (bad) "\<not> b0 \<le> 0x7F" "\<not> (0xC2 \<le> b0 \<and> b0 \<le> 0xDF)" "\<not> (0xE0 \<le> b0 \<and> b0 \<le> 0xEF)"
          "\<not> (0xF0 \<le> b0 \<and> b0 \<le> 0xF4)"
      by blast
    then show ?thesis
    proof cases
      case ascii
      with 1 Cons show ?thesis by (simp add: scan_ascii wf_ascii del: scan_list.simps)
    next
      case two
      show ?thesis
      proof (cases rest)
        case Nil
        with two Cons show ?thesis by (simp add: scan_two_short wf_two_short del: scan_list.simps)
      next
        case (Cons b1 r)
        with two 1 \<open>bs = b0 # rest\<close> show ?thesis by (simp add: scan_two wf_two del: scan_list.simps)
      qed
    next
      case three
      show ?thesis
      proof (cases "length rest < 2")
        case True
        with three Cons show ?thesis by (simp add: scan_three_short wf_three_short del: scan_list.simps)
      next
        case False
        then obtain b1 b2 r where "rest = b1 # b2 # r" using two_more by blast
        with three 1 Cons show ?thesis by (simp add: scan_three wf_three del: scan_list.simps)
      qed
    next
      case four
      show ?thesis
      proof (cases "length rest < 3")
        case True
        with four Cons show ?thesis by (simp add: scan_four_short wf_four_short del: scan_list.simps)
      next
        case False
        then obtain b1 b2 b3 r where "rest = b1 # b2 # b3 # r" using three_more by blast
        with four 1 Cons show ?thesis by (simp add: scan_four wf_four del: scan_list.simps)
      qed
    next
      case bad
      with Cons show ?thesis by (simp add: scan_bad_lead wf_bad_lead del: scan_list.simps)
    qed
  qed
qed

lemma unat_add_nowrap:
  "unat a + unat b < 2 ^ 64 \<Longrightarrow> unat (a + b :: size_t) = unat a + unat b"
  using unat_add_lem[of a b] by simp

lemma take_Suc_drop:
  "m < length xs \<Longrightarrow> take (Suc k) (drop m xs) = xs ! m # take k (drop (Suc m) xs)"
  by (metis Cons_nth_drop_Suc take_Suc_Cons)

lemma lead_byte_extra: "lead_byte b0 = Some (c, e) \<Longrightarrow> unat e \<le> 3"
  by (auto simp add: lead_byte_def split: if_splits)

lemma read_continuation_list:
  assumes "unat i + unat e < length d" and "unat i + unat e < 2 ^ 64"
  shows "j \<le> e \<Longrightarrow> read_continuation d i e j cp =
     Inr (continuation_list (take (unat e - unat j) (drop (unat i + 1 + unat j) d)) cp)"
proof (induction "unat e - unat j" arbitrary: j cp)
  case 0
  then have "\<not> j < e" by (simp add: word_less_nat_alt)
  with 0 show ?case by (subst read_continuation.simps) simp
next
  case (Suc k)
  then have lt: "j < e" by (simp add: word_less_nat_alt)
  then have uj: "unat j < unat e" by (simp add: word_less_nat_alt)
  have e64: "unat e < 2 ^ 64" using unsigned_less[of e, where ?'a = nat] by simp
  have j1: "unat (j + 1) = unat j + 1" using uj e64 by (simp add: unat_add_nowrap)
  have i1: "unat (i + 1) = unat i + 1" using uj assms(2) by (simp add: unat_add_nowrap)
  have idx: "unat (i + 1 + j) = unat i + 1 + unat j"
    using uj assms(2) i1 by (simp add: unat_add_nowrap)
  define m where "m = unat i + 1 + unat j"
  have inb: "m < length d" using uj assms(1) by (simp add: m_def)
  have k: "k = unat e - unat (j + 1)" using Suc(2) j1 by simp
  have le: "j + 1 \<le> e" using uj by (simp add: word_le_nat_alt j1)
  have ld: "load d (unat (i + 1 + j)) = Inr (d ! m)"
    using inb by (simp add: load_def idx m_def)
  have tk: "take (unat e - unat j) (drop m d) = d ! m # take k (drop (Suc m) d)"
    using take_Suc_drop[OF inb, of k] Suc(2) by simp
  have ih: "read_continuation d i e (j + 1) c =
      Inr (continuation_list (take k (drop (Suc m) d)) c)" for c
    using Suc(1)[OF k le, of c] by (simp add: j1 m_def k)
  show ?case
    unfolding m_def[symmetric]
    by (subst read_continuation.simps) (simp add: lt ld tk ih accumulate_def)
qed

subsection \<open>The loop on the block\<close>

lemma take_drop_take: "a + b \<le> n \<Longrightarrow> take a (drop b (take n xs)) = take a (drop b xs)"
  by (simp add: drop_take min_def)

lemma utf8_scan_list:
  assumes "unat n \<le> length d" and "unat n + 2 < 2 ^ 64"
  shows "i \<le> n \<Longrightarrow> utf8_scan d n i = Some (Inr (scan_list (drop (unat i) (take (unat n) d))))"
proof (induction "unat n - unat i" arbitrary: i rule: less_induct)
  case less
  show ?case
  proof (cases "i < n")
    case False
    with less.prems have "i = n" by simp
    then show ?thesis by (subst utf8_scan.simps) simp
  next
    case True
    then have ui: "unat i < unat n" by (simp add: word_less_nat_alt)
    define b0 where "b0 = d ! unat i"
    define rest where "rest = drop (Suc (unat i)) (take (unat n) d)"
    have bs: "drop (unat i) (take (unat n) d) = b0 # rest"
      using ui assms(1) Cons_nth_drop_Suc[of "unat i" "take (unat n) d"]
      by (simp add: b0_def rest_def)
    have lr: "length rest = unat n - Suc (unat i)"
      using assms(1) by (simp add: rest_def)
    have ld: "load d (unat i) = Inr b0"
      using ui assms(1) by (simp add: load_def b0_def)
    show ?thesis
    proof (cases "lead_byte b0")
      case None
      show ?thesis unfolding bs by (subst utf8_scan.simps) (simp add: True ld None)
    next
      case (Some p)
      obtain c0 e where p: "p = (c0, e)" by (cases p)
      have lb: "lead_byte b0 = Some (c0, e)" using Some p by simp
      have e3: "unat e \<le> 3" using lead_byte_extra lb by blast
      have ie: "unat (i + e) = unat i + unat e"
        using ui e3 assms(2) by (simp add: unat_add_nowrap)
      have trunc: "(n \<le> i + e) = (length rest < unat e)"
        using ui by (auto simp add: word_le_nat_alt ie lr)
      show ?thesis
      proof (cases "length rest < unat e")
        case True
        then show ?thesis
          unfolding bs by (subst utf8_scan.simps) (simp add: \<open>i < n\<close> ld lb trunc)
      next
        case False
        then have bound: "unat i + unat e < unat n" using lr ui by simp
        have tk: "take (unat e) (drop (Suc (unat i)) d) = take (unat e) rest"
          unfolding rest_def using bound by (simp add: take_drop_take)
        have rc: "read_continuation d i e 0 c0 = Inr (continuation_list (take (unat e) rest) c0)"
          using read_continuation_list[of i e d 0 c0] bound assms tk by simp
        show ?thesis
        proof (cases "continuation_list (take (unat e) rest) c0")
          case None
          then show ?thesis
            unfolding bs by (subst utf8_scan.simps) (simp add: \<open>i < n\<close> ld lb trunc False rc)
        next
          case (Some cp)
          show ?thesis
          proof (cases "range_check e cp")
            case no: False
            then show ?thesis
              unfolding bs
              by (subst utf8_scan.simps) (simp add: \<open>i < n\<close> ld lb trunc False rc Some)
          next
            case ok: True
            have e1: "unat (e + 1) = unat e + 1" using e3 by (simp add: unat_add_nowrap)
            have nxt: "unat (i + (e + 1)) = unat i + unat e + 1"
              using bound assms(2) e1 by (simp add: unat_add_nowrap)
            have le: "i + (e + 1) \<le> n" using bound by (simp add: word_le_nat_alt nxt)
            have dec: "unat n - unat (i + (e + 1)) < unat n - unat i" using bound nxt by simp
            have dr: "drop (unat (i + (e + 1))) (take (unat n) d) = drop (unat e) rest"
              unfolding nxt rest_def by (simp add: ac_simps)
            show ?thesis
              unfolding bs
              by (subst utf8_scan.simps)
                 (simp add: \<open>i < n\<close> ld lb trunc False rc Some ok less.hyps[OF dec le] dr)
          qed
        qed
      qed
    qed
  qed
qed


subsection \<open>The grammar of RFC 3629\<close>

text \<open>The conditions on the decoded code point select exactly the octet ranges of the
  grammar, so \<^const>\<open>well_formed_utf8\<close> is the language of the grammar.\<close>

lemma byte_eq_unat: "(b = numeral k) = (unat (b::byte) = unat (numeral k :: byte))"
  by (simp only: word_unat_eq_iff)

lemma div64_window: "((y::nat) div 64 = 2) = (128 \<le> y \<and> y \<le> 191)"
proof -
  have "(y div 64 = 2) = (2 \<le> y div 64 \<and> y div 64 < 3)" by auto
  also have "\<dots> = (2 * 64 \<le> y \<and> y < 3 * 64)"
    by (simp only: less_eq_div_iff_mult_less_eq div_less_iff_less_mult zero_less_numeral)
  finally show ?thesis by auto
qed

lemma mod_window: "m * k \<le> (x::nat) \<Longrightarrow> x < m * k + m \<Longrightarrow> x mod m = x - m * k"
proof -
  assume a: "m * k \<le> x" "x < m * k + m"
  then obtain d where d: "x = m * k + d" using le_Suc_ex by blast
  with a have "d < m" by simp
  then show ?thesis using d by simp
qed

lemma tail_continuation: "utf8_tail b = continuation b"
  by (simp add: utf8_tail_def continuation_def word_le_nat_alt div64_window)

lemma two_never_overlong:
  assumes "0xC2 \<le> b0" "b0 \<le> 0xDF"
  shows "0x80 \<le> decode2 b0 b1"
proof -
  have "194 \<le> unat b0" "unat b0 \<le> 223" using assms by (simp_all add: word_le_nat_alt)
  then have "unat b0 mod 32 = unat b0 - 192" using mod_window[of 32 6 "unat b0"] by simp
  then show ?thesis using \<open>194 \<le> unat b0\<close> by (simp add: decode2_def)
qed

lemma overlong3:
  "p < 64 \<Longrightarrow> q < 64 \<Longrightarrow> (2048 \<le> a * 4096 + p * 64 + q) = (1 \<le> a \<or> 32 \<le> (p::nat))"
  by (cases "1 \<le> a"; cases "32 \<le> p"; simp; linarith)

lemma surrogate3:
  "p < 64 \<Longrightarrow> q < 64 \<Longrightarrow>
   (55296 \<le> a * 4096 + p * 64 + q \<and> a * 4096 + p * 64 + q \<le> 57343) = (a = 13 \<and> 32 \<le> (p::nat))"
  by (cases "a \<le> 12"; cases "14 \<le> a"; cases "32 \<le> p"; simp; linarith)

lemma overlong4:
  "p < 64 \<Longrightarrow> q < 64 \<Longrightarrow> r < 64 \<Longrightarrow>
   (65536 \<le> a * 262144 + p * 4096 + q * 64 + r) = (1 \<le> a \<or> 16 \<le> (p::nat))"
  by (cases "1 \<le> a"; cases "16 \<le> p"; simp; linarith)

lemma beyond4:
  "p < 64 \<Longrightarrow> q < 64 \<Longrightarrow> r < 64 \<Longrightarrow>
   (a * 262144 + p * 4096 + q * 64 + r \<le> 1114111) = (a < 4 \<or> a = 4 \<and> (p::nat) < 16)"
  by (cases "a < 4"; cases "5 \<le> a"; cases "p < 16"; simp; linarith)

lemma payload_less: "payload b < 64"
  by (simp add: payload_def)

lemma three_ranges:
  assumes "0xE0 \<le> b0" "b0 \<le> 0xEF" "continuation b1"
  shows "(0x800 \<le> decode3 b0 b1 b2 \<and>
          \<not> (0xD800 \<le> decode3 b0 b1 b2 \<and> decode3 b0 b1 b2 \<le> 0xDFFF)) =
         (b0 = 0xE0 \<and> 0xA0 \<le> b1 \<or> 0xE1 \<le> b0 \<and> b0 \<le> 0xEC \<or>
          b0 = 0xED \<and> b1 \<le> 0x9F \<or> 0xEE \<le> b0)"
proof -
  define x y where "x = unat b0" and "y = unat b1"
  define a p where "a = x mod 16" and "p = y mod 64"
  have bx: "224 \<le> x \<and> x \<le> 239" using assms(1,2) by (simp add: word_le_nat_alt x_def)
  have by1: "y div 64 = 2" using assms(3) by (simp add: continuation_def y_def)
  have ea: "a = x - 224" unfolding a_def using bx mod_window[of 16 14 x] by simp
  have yb: "128 \<le> y \<and> y \<le> 191" using by1 by (simp add: div64_window)
  have ep: "p = y - 128" unfolding p_def using yb mod_window[of 64 2 y] by simp
  have t: "(x = 224) = (a = 0)" "(225 \<le> x \<and> x \<le> 236) = (1 \<le> a \<and> a \<le> 12)"
    "(x = 237) = (a = 13)" "(238 \<le> x) = (14 \<le> a)"
    using bx unfolding ea by auto
  have u: "(160 \<le> y) = (32 \<le> p)" "(y \<le> 159) = (p < 32)"
    using yb unfolding ep by auto
  have lhs: "(0x800 \<le> decode3 b0 b1 b2 \<and>
          \<not> (0xD800 \<le> decode3 b0 b1 b2 \<and> decode3 b0 b1 b2 \<le> 0xDFFF)) =
      ((1 \<le> a \<or> 32 \<le> p) \<and> \<not> (a = 13 \<and> 32 \<le> p))"
    using overlong3[of "payload b1" "payload b2" a, OF payload_less payload_less]
      surrogate3[of "payload b1" "payload b2" a, OF payload_less payload_less]
    by (simp add: decode3_def a_def x_def p_def y_def payload_def)
  have rhs: "(b0 = 0xE0 \<and> 0xA0 \<le> b1 \<or> 0xE1 \<le> b0 \<and> b0 \<le> 0xEC \<or>
          b0 = 0xED \<and> b1 \<le> 0x9F \<or> 0xEE \<le> b0) =
      (a = 0 \<and> 32 \<le> p \<or> 1 \<le> a \<and> a \<le> 12 \<or> a = 13 \<and> p < 32 \<or> 14 \<le> a)"
    unfolding byte_eq_unat word_le_nat_alt using t u by (simp flip: x_def y_def)
  show ?thesis unfolding lhs rhs by (cases "a = 0"; cases "a \<le> 12"; cases "a = 13"; simp; linarith)
qed

lemma four_ranges:
  assumes "0xF0 \<le> b0" "b0 \<le> 0xF4" "continuation b1"
  shows "(0x10000 \<le> decode4 b0 b1 b2 b3 \<and> decode4 b0 b1 b2 b3 \<le> 0x10FFFF) =
         (b0 = 0xF0 \<and> 0x90 \<le> b1 \<or> 0xF1 \<le> b0 \<and> b0 \<le> 0xF3 \<or> b0 = 0xF4 \<and> b1 \<le> 0x8F)"
proof -
  define x y where "x = unat b0" and "y = unat b1"
  define a p where "a = x mod 8" and "p = y mod 64"
  have bx: "240 \<le> x \<and> x \<le> 244" using assms(1,2) by (simp add: word_le_nat_alt x_def)
  have by1: "y div 64 = 2" using assms(3) by (simp add: continuation_def y_def)
  have ea: "a = x - 240" unfolding a_def using bx mod_window[of 8 30 x] by simp
  have yb: "128 \<le> y \<and> y \<le> 191" using by1 by (simp add: div64_window)
  have ep: "p = y - 128" unfolding p_def using yb mod_window[of 64 2 y] by simp
  have t: "(x = 240) = (a = 0)" "(241 \<le> x \<and> x \<le> 243) = (1 \<le> a \<and> a \<le> 3)"
    "(x = 244) = (a = 4)" "a \<le> 4"
    using bx unfolding ea by auto
  have u: "(144 \<le> y) = (16 \<le> p)" "(y \<le> 143) = (p < 16)"
    using yb unfolding ep by auto
  have lhs: "(0x10000 \<le> decode4 b0 b1 b2 b3 \<and> decode4 b0 b1 b2 b3 \<le> 0x10FFFF) =
      ((1 \<le> a \<or> 16 \<le> p) \<and> (a < 4 \<or> a = 4 \<and> p < 16))"
    using overlong4[of "payload b1" "payload b2" "payload b3" a,
        OF payload_less payload_less payload_less]
      beyond4[of "payload b1" "payload b2" "payload b3" a,
        OF payload_less payload_less payload_less]
    by (simp add: decode4_def a_def x_def p_def y_def payload_def)
  have rhs: "(b0 = 0xF0 \<and> 0x90 \<le> b1 \<or> 0xF1 \<le> b0 \<and> b0 \<le> 0xF3 \<or> b0 = 0xF4 \<and> b1 \<le> 0x8F) =
      (a = 0 \<and> 16 \<le> p \<or> 1 \<le> a \<and> a \<le> 3 \<or> a = 4 \<and> p < 16)"
    unfolding byte_eq_unat word_le_nat_alt using t u by (simp flip: x_def y_def)
  show ?thesis unfolding lhs rhs using t(4) by (cases "a = 0"; cases "a = 4"; simp; linarith)
qed

lemma tail_ranges:
  "0xA0 \<le> b \<Longrightarrow> b \<le> 0xBF \<Longrightarrow> utf8_tail b"
  "0x80 \<le> b \<Longrightarrow> b \<le> 0x9F \<Longrightarrow> utf8_tail b"
  "0x90 \<le> b \<Longrightarrow> b \<le> 0xBF \<Longrightarrow> utf8_tail b"
  "0x80 \<le> b \<Longrightarrow> b \<le> 0x8F \<Longrightarrow> utf8_tail b"
  by (simp_all add: utf8_tail_def word_le_nat_alt)

lemma tail_bounds: "utf8_tail b \<Longrightarrow> 0x80 \<le> b \<and> b \<le> 0xBF"
  by (simp add: utf8_tail_def)

lemma three_from_ranges:
  assumes "0xE0 \<le> b0" "b0 \<le> 0xEF" "utf8_tail b1" "utf8_tail b2"
    and "b0 = 0xE0 \<and> 0xA0 \<le> b1 \<or> 0xE1 \<le> b0 \<and> b0 \<le> 0xEC \<or>
         b0 = 0xED \<and> b1 \<le> 0x9F \<or> 0xEE \<le> b0"
    and "well_formed_utf8 r"
  shows "well_formed_utf8 (b0 # b1 # b2 # r)"
proof -
  have c: "continuation b1" "continuation b2" using assms(3,4) by (simp_all add: tail_continuation)
  from three_ranges[OF assms(1,2) c(1), of b2] assms(5)
  have h: "0x800 \<le> decode3 b0 b1 b2"
    "\<not> (0xD800 \<le> decode3 b0 b1 b2 \<and> decode3 b0 b1 b2 \<le> 0xDFFF)"
    by blast+
  show ?thesis using assms(1,2,6) c h by (simp add: wf_three)
qed

lemma four_from_ranges:
  assumes "0xF0 \<le> b0" "b0 \<le> 0xF4" "utf8_tail b1" "utf8_tail b2" "utf8_tail b3"
    and "b0 = 0xF0 \<and> 0x90 \<le> b1 \<or> 0xF1 \<le> b0 \<and> b0 \<le> 0xF3 \<or> b0 = 0xF4 \<and> b1 \<le> 0x8F"
    and "well_formed_utf8 r"
  shows "well_formed_utf8 (b0 # b1 # b2 # b3 # r)"
proof -
  have c: "continuation b1" "continuation b2" "continuation b3"
    using assms(3,4,5) by (simp_all add: tail_continuation)
  from four_ranges[OF assms(1,2) c(1), of b2 b3] assms(6)
  have h: "0x10000 \<le> decode4 b0 b1 b2 b3" "decode4 b0 b1 b2 b3 \<le> 0x10FFFF"
    by blast+
  show ?thesis using assms(1,2,7) c h by (simp add: wf_four)
qed

lemma octets_well_formed: "utf8_octets bs \<Longrightarrow> well_formed_utf8 bs"
proof (induction rule: utf8_octets.induct)
  case octets_empty
  show ?case by (rule wf_empty)
next
  case (octets_1 b0 r)
  then show ?case by (simp add: wf_ascii)
next
  case (octets_2 b0 b1 r)
  then show ?case
    by (simp add: wf_two tail_continuation[symmetric] two_never_overlong)
next
  case (octets_3a b0 b1 b2 r)
  then show ?case using tail_ranges(1)[of b1] by (intro three_from_ranges) simp_all
next
  case (octets_3b b0 b1 b2 r)
  then show ?case by (intro three_from_ranges) (simp_all add: word_le_nat_alt)
next
  case (octets_3c b0 b1 b2 r)
  then show ?case using tail_ranges(2)[of b1] by (intro three_from_ranges) simp_all
next
  case (octets_3d b0 b1 b2 r)
  then show ?case by (intro three_from_ranges) (simp_all add: word_le_nat_alt)
next
  case (octets_4a b0 b1 b2 b3 r)
  then show ?case using tail_ranges(3)[of b1] by (intro four_from_ranges) simp_all
next
  case (octets_4b b0 b1 b2 b3 r)
  then show ?case by (intro four_from_ranges) (simp_all add: word_le_nat_alt)
next
  case (octets_4c b0 b1 b2 b3 r)
  then show ?case using tail_ranges(4)[of b1] by (intro four_from_ranges) simp_all
qed

lemma well_formed_octets: "well_formed_utf8 bs \<Longrightarrow> utf8_octets bs"
proof (induction rule: well_formed_utf8.induct)
  case wf_empty
  show ?case by (rule octets_empty)
next
  case (wf_one b0 rest)
  then show ?case by (simp add: octets_1)
next
  case (wf_two b0 b1 rest)
  then show ?case by (simp add: octets_2 tail_continuation)
next
  case (wf_three b0 b1 b2 rest)
  have t: "utf8_tail b1" "utf8_tail b2" using wf_three by (simp_all add: tail_continuation)
  from three_ranges[OF wf_three(1,2,3), of b2] wf_three(5,6)
  consider "b0 = 0xE0 \<and> 0xA0 \<le> b1" | "0xE1 \<le> b0 \<and> b0 \<le> 0xEC"
    | "b0 = 0xED \<and> b1 \<le> 0x9F" | "0xEE \<le> b0"
    by blast
  then show ?case
  proof cases
    case 1
    then show ?thesis using t tail_bounds[OF t(1)] wf_three.IH by (simp add: octets_3a)
  next
    case 2
    then show ?thesis using t wf_three.IH by (simp add: octets_3b)
  next
    case 3
    then show ?thesis using t tail_bounds[OF t(1)] wf_three.IH by (simp add: octets_3c)
  next
    case 4
    then show ?thesis using t wf_three(2) wf_three.IH by (simp add: octets_3d)
  qed
next
  case (wf_four b0 b1 b2 b3 rest)
  have t: "utf8_tail b1" "utf8_tail b2" "utf8_tail b3"
    using wf_four by (simp_all add: tail_continuation)
  from four_ranges[OF wf_four(1,2,3), of b2 b3] wf_four(6,7)
  consider "b0 = 0xF0 \<and> 0x90 \<le> b1" | "0xF1 \<le> b0 \<and> b0 \<le> 0xF3" | "b0 = 0xF4 \<and> b1 \<le> 0x8F"
    by blast
  then show ?case
  proof cases
    case 1
    then show ?thesis using t tail_bounds[OF t(1)] wf_four.IH by (simp add: octets_4a)
  next
    case 2
    then show ?thesis using t wf_four.IH by (simp add: octets_4b)
  next
    case 3
    then show ?thesis using t tail_bounds[OF t(1)] wf_four.IH by (simp add: octets_4c)
  qed
qed

lemma well_formed_utf8_rfc3629: "well_formed_utf8 bs = utf8_octets bs"
  using octets_well_formed well_formed_octets by blast

subsection \<open>The validator\<close>

text \<open>The fixed vectors of section 8 of the specification.\<close>

lemma utf8_validate_scan:
  "unat n \<le> length d \<Longrightarrow> unat n + 2 < 2 ^ 64 \<Longrightarrow>
   utf8_validate (Some d) n = Some (Inr (scan_list (take (unat n) d)))"
  using utf8_scan_list[of n d 0] by (simp add: utf8_validate_def)

lemma scan_list_vectors:
  "scan_list [0x68, 0x65, 0x6C, 0x6C, 0x6F]"
  "scan_list [0xC2, 0x80]"
  "\<not> scan_list [0xC0, 0x80]"
  "\<not> scan_list [0xE0, 0x80, 0x80]"
  "\<not> scan_list [0xED, 0xA0, 0x80]"
  "\<not> scan_list [0xF4, 0x90, 0x80, 0x80]"
  "scan_list [0xF0, 0x9F, 0x98, 0x80]"
  "\<not> scan_list [0xE2, 0x82]"
  by code_simp+

lemma utf8_validate_vectors:
  "utf8_validate (Some [0x68, 0x65, 0x6C, 0x6C, 0x6F]) 5 = Some (Inr True)"
  "utf8_validate (Some [0xC2, 0x80]) 2 = Some (Inr True)"
  "utf8_validate (Some [0xC0, 0x80]) 2 = Some (Inr False)"
  "utf8_validate (Some [0xE0, 0x80, 0x80]) 3 = Some (Inr False)"
  "utf8_validate (Some [0xED, 0xA0, 0x80]) 3 = Some (Inr False)"
  "utf8_validate (Some [0xF4, 0x90, 0x80, 0x80]) 4 = Some (Inr False)"
  "utf8_validate (Some [0xF0, 0x9F, 0x98, 0x80]) 4 = Some (Inr True)"
  "utf8_validate (Some [0xE2, 0x82]) 2 = Some (Inr False)"
  "utf8_validate (Some []) 0 = Some (Inr True)"
  using scan_list_vectors
  by (simp_all add: utf8_validate_scan del: scan_list.simps(2))

text \<open>
  Claim C1. For a span of \<open>n\<close> bytes that lies inside its block, \<^verbatim>\<open>utf8_validate\<close>
  returns, and it returns true exactly when the span is well-formed UTF-8: a
  concatenation of encodings with lead bytes in \<open>00-7F\<close>, \<open>C2-DF\<close>, \<open>E0-EF\<close>,
  \<open>F0-F4\<close> followed by one, two or three continuation bytes, none of them overlong, a
  surrogate or above \<open>10FFFF\<close>; the empty span is valid. The same holds for
  \<^verbatim>\<open>str_validate_utf8\<close> on a buffer with that storage and length. The span ends at
  least three bytes below \<open>2^64\<close>, so that the index arithmetic of the scan cannot wrap.
  By \<open>well_formed_utf8_rfc3629\<close> the well-formed spans are those of the grammar of
  RFC 3629.
\<close>

theorem utf8_validate_iff_well_formed:
  assumes "unat n \<le> length d" and "unat n + 2 < 2 ^ 64"
  shows "utf8_validate (Some d) n = Some (Inr (well_formed_utf8 (take (unat n) d))) \<and>
         str_validate_utf8 (Some \<lparr>data = Some d, len = n, cap = c\<rparr>)
           = Some (Inr (well_formed_utf8 (take (unat n) d)))"
  using utf8_scan_list[OF assms, of 0]
  by (simp add: utf8_validate_def str_validate_utf8_def scan_list_well_formed)

theorem utf8_validate_iff_well_formed_witness:
  "unat (2 :: size_t) \<le> length [0xC2, 0x80 :: byte] \<and> unat (2 :: size_t) + 2 < 2 ^ 64 \<and>
   utf8_validate (Some [0xC2, 0x80]) 2 = Some (Inr True) \<and>
   utf8_validate (Some [0xC0, 0x80]) 2 = Some (Inr False)"
  using utf8_validate_iff_well_formed[of 2 "[0xC2, 0x80]"]
    utf8_validate_iff_well_formed[of 2 "[0xC0, 0x80]"]
  by (simp add: wf_two wf_empty wf_bad_lead continuation_def decode2_def payload_def)

text \<open>
  Claim C10. With a null data pointer \<^verbatim>\<open>utf8_validate\<close> returns true for every
  claimed length, and it returns before any byte is read.
\<close>

theorem utf8_validate_null: "utf8_validate None n = Some (Inr True)"
  by (simp add: utf8_validate_def)

section \<open>The normalisers\<close>

subsection \<open>Removing the byte order mark\<close>

lemma and_then_simps [simp]:
  "and_then (Inr x) f = f x"
  "and_then (Inl e) f = Inl e"
  by (simp_all add: and_then_def)

lemma take3_nth: "3 \<le> length xs \<Longrightarrow> take 3 xs = [xs ! 0, xs ! 1, xs ! 2]"
  by (cases xs; cases "tl xs"; cases "tl (tl xs)") auto

lemma str_bytes_Some: "data s = Some blk \<Longrightarrow> str_bytes s = take (unat (len s)) blk"
  by (simp add: str_bytes_def)

lemma str_bytes_None: "data s = None \<Longrightarrow> str_bytes s = []"
  by (simp add: str_bytes_def)

lemma str_inv_Some:
  "data s = Some blk \<Longrightarrow>
   str_inv s = (length blk = unat (cap s) \<and> len s < cap s \<and> blk ! unat (len s) = 0)"
  by (simp add: str_inv_def)

lemma str_inv_bound: "str_inv s \<Longrightarrow> data s = Some blk \<Longrightarrow> unat (len s) < length blk"
  by (simp add: str_inv_Some word_less_nat_alt)

lemma remove_bom_hit:
  assumes d: "data s = Some blk" and b: "unat (len s) \<le> length blk"
    and l: "3 \<le> len s" and t: "take 3 (str_bytes s) = utf8_bom"
  shows "str_remove_utf8_bom (Some s) =
     Inr (Some (s\<lparr>data := Some (bom_shift blk (unat (len s))), len := len s - 3\<rparr>), True)"
proof -
  have l3: "3 \<le> unat (len s)" using l by (simp add: word_le_nat_alt)
  then have lb: "3 \<le> length blk" using b by simp
  have nl: "\<not> len s < 3" using l by simp
  have sub: "unat (len s - 3) = unat (len s) - 3" using l by (simp add: unat_sub)
  have "take 3 blk = utf8_bom" using t l3 by (simp add: str_bytes_Some[OF d] min_def)
  then have bytes: "blk ! 0 = 0xEF" "blk ! 1 = 0xBB" "blk ! 2 = 0xBF"
    using take3_nth[OF lb] by (simp_all add: utf8_bom_def)
  have "blk \<noteq> []" "1 < length blk" "2 < length blk" using lb by auto
  then have ld: "load blk 0 = Inr 0xEF" "load blk (Suc 0) = Inr 0xBB" "load blk 2 = Inr 0xBF"
    using bytes by (simp_all add: load_def)
  have mv: "memmove_down blk 3 (unat (len s) - 3)
      = Inr (take (unat (len s) - 3) (drop 3 blk) @ drop (unat (len s) - 3) blk)"
    using b l3 by (simp add: memmove_down_def)
  have st: "store (take (unat (len s) - 3) (drop 3 blk) @ drop (unat (len s) - 3) blk)
        (unat (len s) - 3) 0 = Inr (bom_shift blk (unat (len s)))"
    using b l3 by (simp add: store_def bom_shift_def)
  show ?thesis
    by (simp add: str_remove_utf8_bom_def d nl ld sub mv st Let_def)
qed

lemma remove_bom_miss:
  assumes b: "case data s of None \<Rightarrow> True | Some blk \<Rightarrow> unat (len s) \<le> length blk"
    and n: "\<not> (3 \<le> len s \<and> take 3 (str_bytes s) = utf8_bom)"
  shows "str_remove_utf8_bom (Some s) = Inr (Some s, False)"
proof (cases "data s")
  case None
  then show ?thesis by (simp add: str_remove_utf8_bom_def)
next
  case (Some blk)
  show ?thesis
  proof (cases "len s < 3")
    case True
    then show ?thesis by (simp add: str_remove_utf8_bom_def Some)
  next
    case False
    then have l: "3 \<le> len s" by simp
    then have l3: "3 \<le> unat (len s)" by (simp add: word_le_nat_alt)
    then have lb: "3 \<le> length blk" using b Some by simp
    have "take 3 blk \<noteq> utf8_bom" using n l l3 by (simp add: str_bytes_Some[OF Some] min_def)
    then have ne: "\<not> (blk ! 0 = 0xEF \<and> blk ! 1 = 0xBB \<and> blk ! 2 = 0xBF)"
      using take3_nth[OF lb] by (auto simp add: utf8_bom_def)
    have "blk \<noteq> []" "1 < length blk" "2 < length blk" using lb by auto
    then have ld: "load blk 0 = Inr (blk ! 0)" "load blk (Suc 0) = Inr (blk ! 1)" "load blk 2 = Inr (blk ! 2)"
      by (simp_all add: load_def)
    show ?thesis
      using ne by (auto simp add: str_remove_utf8_bom_def Some False ld)
  qed
qed

lemma bom_shift_length: "3 \<le> n \<Longrightarrow> n \<le> length blk \<Longrightarrow> length (bom_shift blk n) = length blk"
  by (simp add: bom_shift_def)

lemma bom_shift_take:
  "3 \<le> n \<Longrightarrow> n \<le> length blk \<Longrightarrow> take (n - 3) (bom_shift blk n) = drop 3 (take n blk)"
  by (simp add: bom_shift_def drop_take)

lemma bom_shift_terminated:
  "3 \<le> n \<Longrightarrow> n \<le> length blk \<Longrightarrow> bom_shift blk n ! (n - 3) = 0"
  by (simp add: bom_shift_def)

lemma str_remove_utf8_bom_result:
  assumes "str_inv s"
  shows "str_remove_utf8_bom (Some s) =
     (if 3 \<le> len s \<and> take 3 (str_bytes s) = utf8_bom
      then Inr (Some (bom_removed s), True) else Inr (Some s, False))"
proof (cases "3 \<le> len s \<and> take 3 (str_bytes s) = utf8_bom")
  case True
  then obtain blk where d: "data s = Some blk"
    by (cases "data s") (auto simp add: str_bytes_def utf8_bom_def)
  have b: "unat (len s) \<le> length blk" using str_inv_bound[OF assms d] by simp
  from remove_bom_hit[OF d b] True show ?thesis
    by (simp add: bom_removed_def d)
next
  case False
  have "case data s of None \<Rightarrow> True | Some blk \<Rightarrow> unat (len s) \<le> length blk"
    using str_inv_bound[OF assms] by (auto split: option.splits simp add: less_imp_le)
  from remove_bom_miss[OF this False] False show ?thesis by simp
qed

lemma bom_removed_props:
  assumes inv: "str_inv s" and l: "3 \<le> len s" and d: "data s \<noteq> None"
  shows "str_bytes (bom_removed s) = drop 3 (str_bytes s)"
    and "len (bom_removed s) = len s - 3"
    and "cap (bom_removed s) = cap s"
    and "str_inv (bom_removed s)"
proof -
  from d obtain blk where d: "data s = Some blk" by auto
  have b: "unat (len s) < length blk" using str_inv_bound[OF inv d] .
  have l3: "3 \<le> unat (len s)" using l by (simp add: word_le_nat_alt)
  have sub: "unat (len s - 3) = unat (len s) - 3" using l by (simp add: unat_sub)
  have c: "length blk = unat (cap s)" and lc: "len s < cap s"
    using inv by (simp_all add: str_inv_Some[OF d])
  show "str_bytes (bom_removed s) = drop 3 (str_bytes s)"
    using bom_shift_take[OF l3, of blk] b
    by (simp add: bom_removed_def d str_bytes_def sub)
  show "len (bom_removed s) = len s - 3" by (simp add: bom_removed_def d)
  show "cap (bom_removed s) = cap s" by (simp add: bom_removed_def d)
  have "len s - 3 < cap s" using lc l3 by (simp add: word_less_nat_alt sub)
  then show "str_inv (bom_removed s)"
    using bom_shift_length[OF l3, of blk] bom_shift_terminated[OF l3, of blk] b c
    by (simp add: bom_removed_def d str_inv_def sub)
qed

text \<open>
  Claim C7. On a buffer that satisfies the invariant: when the length is at least 3 and
  the first three bytes are \<open>EF BB BF\<close>, \<^verbatim>\<open>str_remove_utf8_bom\<close> returns true and
  leaves the remaining bytes moved to the front, the length decreased by 3, the capacity
  as it was and the terminator at the new end; in every other case it returns false and
  the buffer is unchanged.
\<close>

theorem str_remove_utf8_bom_spec:
  assumes "str_inv s"
  shows "(3 \<le> len s \<and> take 3 (str_bytes s) = utf8_bom \<longrightarrow>
            (\<exists>s'. str_remove_utf8_bom (Some s) = Inr (Some s', True) \<and>
                  str_bytes s' = drop 3 (str_bytes s) \<and> len s' = len s - 3 \<and>
                  cap s' = cap s \<and> str_inv s')) \<and>
         (\<not> (3 \<le> len s \<and> take 3 (str_bytes s) = utf8_bom) \<longrightarrow>
            str_remove_utf8_bom (Some s) = Inr (Some s, False))"
proof (intro conjI impI)
  assume h: "3 \<le> len s \<and> take 3 (str_bytes s) = utf8_bom"
  then have d: "data s \<noteq> None" by (cases "data s") (auto simp add: str_bytes_def utf8_bom_def)
  from h have l: "3 \<le> len s" by simp
  show "\<exists>s'. str_remove_utf8_bom (Some s) = Inr (Some s', True) \<and>
      str_bytes s' = drop 3 (str_bytes s) \<and> len s' = len s - 3 \<and> cap s' = cap s \<and> str_inv s'"
    using str_remove_utf8_bom_result[OF assms] h bom_removed_props[OF assms l d]
    by (intro exI[of _ "bom_removed s"]) simp
next
  assume "\<not> (3 \<le> len s \<and> take 3 (str_bytes s) = utf8_bom)"
  then show "str_remove_utf8_bom (Some s) = Inr (Some s, False)"
    using str_remove_utf8_bom_result[OF assms] by simp
qed

theorem str_remove_utf8_bom_spec_witness:
  "str_inv \<lparr>data = Some [0xEF, 0xBB, 0xBF, 0x68, 0x69, 0], len = 5, cap = 6\<rparr> \<and>
   (\<exists>s'. str_remove_utf8_bom (Some \<lparr>data = Some [0xEF, 0xBB, 0xBF, 0x68, 0x69, 0], len = 5, cap = 6\<rparr>)
            = Inr (Some s', True) \<and> str_bytes s' = [0x68, 0x69] \<and> len s' = 2 \<and> cap s' = 6) \<and>
   str_inv \<lparr>data = Some [0x68, 0x69, 0], len = 2, cap = 3\<rparr> \<and>
   str_remove_utf8_bom (Some \<lparr>data = Some [0x68, 0x69, 0], len = 2, cap = 3\<rparr>)
     = Inr (Some \<lparr>data = Some [0x68, 0x69, 0], len = 2, cap = 3\<rparr>, False)"
  using str_remove_utf8_bom_spec[of "\<lparr>data = Some [0xEF, 0xBB, 0xBF, 0x68, 0x69, 0], len = 5, cap = 6\<rparr>"]
    str_remove_utf8_bom_spec[of "\<lparr>data = Some [0x68, 0x69, 0], len = 2, cap = 3\<rparr>"]
  by (auto simp add: str_inv_def str_bytes_def utf8_bom_def)

subsection \<open>Stripping trailing line ends\<close>

lemma strip_trailing_Nil [simp]: "strip_trailing [] = []"
  by (simp add: strip_trailing_def)

lemma strip_trailing_snoc:
  "strip_trailing (xs @ [x]) = (if is_crlf x then strip_trailing xs else xs @ [x])"
  by (simp add: strip_trailing_def)

lemma strip_trailing_length: "length (strip_trailing xs) \<le> length xs"
  using length_dropWhile_le[of is_crlf "rev xs"] by (simp add: strip_trailing_def)

lemma strip_trailing_prefix: "strip_trailing xs = take (length (strip_trailing xs)) xs"
proof (induction xs rule: rev_induct)
  case Nil
  show ?case by simp
next
  case (snoc x xs)
  then show ?case using strip_trailing_length[of xs] by (simp add: strip_trailing_snoc)
qed

lemma strip_trailing_last: "strip_trailing xs \<noteq> [] \<Longrightarrow> \<not> is_crlf (last (strip_trailing xs))"
  by (induction xs rule: rev_induct) (auto simp add: strip_trailing_snoc)

lemma strip_trailing_longest:
  assumes "p = take n xs" and "n \<le> length xs" and "p = [] \<or> \<not> is_crlf (last p)"
  shows "n \<le> length (strip_trailing xs)"
  using assms
proof (induction xs arbitrary: p n rule: rev_induct)
  case Nil
  then show ?case by simp
next
  case (snoc x xs)
  show ?case
  proof (cases "n \<le> length xs")
    case True
    then have "p = take n xs" using snoc.prems by simp
    from snoc.IH[OF this True snoc.prems(3)] True show ?thesis
      by (auto simp add: strip_trailing_snoc)
  next
    case False
    then have n: "n = Suc (length xs)" using snoc.prems by simp
    then have "p = xs @ [x]" using snoc.prems by simp
    then have "\<not> is_crlf x" using snoc.prems(3) by simp
    then show ?thesis using n by (simp add: strip_trailing_snoc)
  qed
qed

lemma strip_trailing_idem: "strip_trailing (strip_trailing xs) = strip_trailing xs"
  by (induction xs rule: rev_induct) (auto simp add: strip_trailing_snoc)

lemma strip_trailing_fixed: "xs = [] \<or> \<not> is_crlf (last xs) \<Longrightarrow> strip_trailing xs = xs"
  by (cases xs rule: rev_cases) (auto simp add: strip_trailing_snoc)

lemma strip_block_alt:
  "strip_block blk n =
     take (strip_length blk n) blk @ replicate (n - strip_length blk n) 0 @ drop n blk"
  by (simp add: strip_block_def strip_length_def Let_def)

lemma strip_loop_result:
  "unat l \<le> length blk \<Longrightarrow>
   strip_loop blk l = Inr (strip_block blk (unat l), of_nat (strip_length blk (unat l)))"
proof (induction "unat l" arbitrary: l blk)
  case 0
  then have "l = 0" by (simp add: unat_eq_0)
  then show ?case
    by (subst strip_loop.simps) (simp add: strip_block_def strip_length_def)
next
  case (Suc m)
  have ul: "unat l = Suc m" using Suc(2) by simp
  have pos: "0 < l" using ul by (simp add: word_less_nat_alt)
  have "1 \<le> l" using ul by (simp add: word_le_nat_alt)
  from unat_sub[OF this] have um: "unat (l - 1) = m" using ul by simp
  have mb: "m < length blk" using Suc(3) ul by simp
  have "of_nat (unat l) = l" by simp
  then have ofn: "l = 1 + of_nat m" unfolding ul by simp
  have ld: "load blk (unat (l - 1)) = Inr (blk ! m)" using mb by (simp add: load_def um)
  have tk: "take (Suc m) blk = take m blk @ [blk ! m]"
    using mb by (simp add: take_Suc_conv_app_nth)
  show ?case
  proof (cases "is_crlf (blk ! m)")
    case False
    have "strip_trailing (take (Suc m) blk) = take (Suc m) blk"
      unfolding tk using False by (simp add: strip_trailing_snoc)
    then have "strip_length blk (Suc m) = Suc m" "strip_block blk (Suc m) = blk"
      using mb by (simp_all add: strip_length_def strip_block_def)
    then show ?thesis
      using False unfolding ul by (subst strip_loop.simps) (simp add: pos ld is_crlf_def ofn[symmetric])
  next
    case True
    have st: "store blk (unat (l - 1)) 0 = Inr (blk[m := 0])" using mb by (simp add: store_def um)
    have ih: "strip_loop (blk[m := 0]) (l - 1)
        = Inr (strip_block (blk[m := 0]) m, of_nat (strip_length (blk[m := 0]) m))"
      using Suc(1)[of "l - 1" "blk[m := 0]"] um mb by simp
    have s1: "strip_trailing (take (Suc m) blk) = strip_trailing (take m blk)"
      unfolding tk using True by (simp add: strip_trailing_snoc)
    have len_eq: "strip_length (blk[m := 0]) m = strip_length blk (Suc m)"
      by (simp add: strip_length_def s1)
    have kle: "strip_length blk (Suc m) \<le> m"
      unfolding strip_length_def s1 using strip_trailing_length[of "take m blk"] mb by simp
    have dr: "drop m (blk[m := 0]) = 0 # drop (Suc m) blk"
      using mb Cons_nth_drop_Suc[of m "blk[m := 0]"] by simp
    have rp: "replicate (Suc m - strip_length blk (Suc m)) (0::byte)
        = replicate (m - strip_length blk (Suc m)) 0 @ [0]"
      using kle by (simp add: Suc_diff_le replicate_append_same)
    have "strip_block (blk[m := 0]) m
        = take (strip_length blk (Suc m)) blk @ replicate (m - strip_length blk (Suc m)) 0
            @ 0 # drop (Suc m) blk"
      unfolding strip_block_alt len_eq dr using kle by simp
    moreover have "strip_block blk (Suc m)
        = take (strip_length blk (Suc m)) blk @ replicate (m - strip_length blk (Suc m)) 0
            @ 0 # drop (Suc m) blk"
      unfolding strip_block_alt rp by simp
    ultimately have blk_eq: "strip_block (blk[m := 0]) m = strip_block blk (Suc m)"
      by simp
    show ?thesis
      using True unfolding ul
      by (subst strip_loop.simps) (simp add: pos ld is_crlf_def st ih len_eq blk_eq)
  qed
qed

lemma strip_length_le: "strip_length blk n \<le> n"
  using strip_trailing_length[of "take n blk"] by (simp add: strip_length_def)

lemma strip_block_length: "n \<le> length blk \<Longrightarrow> length (strip_block blk n) = length blk"
  using strip_length_le[of blk n] by (simp add: strip_block_alt)

lemma strip_block_take:
  "n \<le> length blk \<Longrightarrow> take (strip_length blk n) (strip_block blk n) = strip_trailing (take n blk)"
proof -
  assume n: "n \<le> length blk"
  have "strip_trailing (take n blk) = take (strip_length blk n) (take n blk)"
    using strip_trailing_prefix[of "take n blk"] by (simp add: strip_length_def)
  also have "\<dots> = take (strip_length blk n) blk"
    using strip_length_le[of blk n] by (simp add: min_def)
  finally show ?thesis
    using strip_length_le[of blk n] n by (simp add: strip_block_alt)
qed

lemma strip_block_terminated:
  assumes "n < length blk" and "blk ! n = 0"
  shows "strip_block blk n ! strip_length blk n = 0"
proof (cases "strip_length blk n = n")
  case True
  then show ?thesis using assms by (simp add: strip_block_alt nth_append)
next
  case False
  then have "strip_length blk n < n" using strip_length_le[of blk n] by simp
  then show ?thesis using assms by (simp add: strip_block_alt nth_append)
qed

lemma strip_block_fixed:
  "n \<le> length blk \<Longrightarrow> strip_trailing (take n blk) = take n blk \<Longrightarrow>
   strip_block blk n = blk \<and> strip_length blk n = n"
  by (simp add: strip_block_alt strip_length_def)

lemma unat_of_nat_small: "k \<le> unat (l :: size_t) \<Longrightarrow> unat (of_nat k :: size_t) = k"
  by (rule le_unat_uoi)

lemma str_strip_crlf_result:
  assumes "str_inv s"
  shows "str_strip_crlf (Some s) = Inr (Some (stripped s))"
proof (cases "data s")
  case None
  then show ?thesis by (simp add: str_strip_crlf_def stripped_def)
next
  case (Some blk)
  have b: "unat (len s) \<le> length blk" using str_inv_bound[OF assms Some] by simp
  show ?thesis
  proof (cases "len s = 0")
    case True
    then have "stripped s = s"
      using Some by (simp add: stripped_def strip_block_alt strip_length_def)
    then show ?thesis using True Some by (simp add: str_strip_crlf_def)
  next
    case False
    then show ?thesis
      using Some by (simp add: str_strip_crlf_def strip_loop_result[OF b] stripped_def)
  qed
qed

lemma stripped_bytes: "str_inv s \<Longrightarrow> str_bytes (stripped s) = strip_trailing (str_bytes s)"
proof (cases "data s")
  case None
  then show ?thesis by (simp add: stripped_def str_bytes_def)
next
  case (Some blk)
  assume inv: "str_inv s"
  have b: "unat (len s) \<le> length blk" using str_inv_bound[OF inv Some] by simp
  have u: "unat (of_nat (strip_length blk (unat (len s))) :: size_t) = strip_length blk (unat (len s))"
    by (rule unat_of_nat_small[OF strip_length_le])
  show ?thesis
    using Some by (simp add: stripped_def str_bytes_def u strip_block_take[OF b])
qed

lemma stripped_len:
  "str_inv s \<Longrightarrow> unat (len (stripped s)) = length (strip_trailing (str_bytes s))"
proof (cases "data s")
  case None
  assume "str_inv s"
  with None show ?thesis by (simp add: stripped_def str_bytes_def str_inv_def)
next
  case (Some blk)
  have u: "unat (of_nat (strip_length blk (unat (len s))) :: size_t) = strip_length blk (unat (len s))"
    by (rule unat_of_nat_small[OF strip_length_le])
  show ?thesis
    using Some by (simp add: stripped_def str_bytes_def u) (simp add: strip_length_def)
qed

lemma stripped_cap: "cap (stripped s) = cap s"
  by (simp add: stripped_def split: option.splits)

lemma stripped_inv: "str_inv s \<Longrightarrow> str_inv (stripped s)"
proof (cases "data s")
  case None
  assume "str_inv s"
  with None show ?thesis by (simp add: stripped_def)
next
  case (Some blk)
  assume inv: "str_inv s"
  have b: "unat (len s) < length blk" using str_inv_bound[OF inv Some] .
  have z: "blk ! unat (len s) = 0" and c: "length blk = unat (cap s)" and lc: "len s < cap s"
    using inv by (simp_all add: str_inv_Some[OF Some])
  have u: "unat (of_nat (strip_length blk (unat (len s))) :: size_t) = strip_length blk (unat (len s))"
    by (rule unat_of_nat_small[OF strip_length_le])
  have "strip_length blk (unat (len s)) < unat (cap s)"
    using strip_length_le[of blk "unat (len s)"] b c by simp
  then have lt: "(of_nat (strip_length blk (unat (len s))) :: size_t) < cap s"
    by (simp add: word_less_nat_alt u)
  show ?thesis
    using Some b c lt strip_block_terminated[OF b z]
    by (simp add: stripped_def str_inv_def u strip_block_length)
qed

lemma stripped_fixed:
  assumes "str_inv s" and "str_bytes s = [] \<or> \<not> is_crlf (last (str_bytes s))"
  shows "stripped s = s"
proof (cases "data s")
  case None
  then show ?thesis by (simp add: stripped_def)
next
  case (Some blk)
  have b: "unat (len s) \<le> length blk" using str_inv_bound[OF assms(1) Some] by simp
  have "strip_trailing (take (unat (len s)) blk) = take (unat (len s)) blk"
    using strip_trailing_fixed[OF assms(2)] by (simp add: str_bytes_Some[OF Some])
  from strip_block_fixed[OF b this] show ?thesis
    using Some by (simp add: stripped_def)
qed

lemma stripped_idem: "str_inv s \<Longrightarrow> stripped (stripped s) = stripped s"
proof -
  assume inv: "str_inv s"
  have "str_bytes (stripped s) = [] \<or> \<not> is_crlf (last (str_bytes (stripped s)))"
    using strip_trailing_last[of "str_bytes s"] by (auto simp add: stripped_bytes[OF inv])
  from stripped_fixed[OF stripped_inv[OF inv] this] show ?thesis .
qed

text \<open>
  Claim C8. On a buffer that satisfies the invariant \<^verbatim>\<open>str_strip_crlf\<close> leaves the
  longest prefix of the content whose last byte is neither CR nor LF, with the length of
  that prefix, the capacity as it was and the terminator at the new end; a buffer that is
  empty or does not end in CR or LF is unchanged. (\<open>strip_trailing_prefix\<close>,
  \<open>strip_trailing_last\<close> and \<open>strip_trailing_longest\<close> say that
  \<^const>\<open>strip_trailing\<close> is that prefix.)
\<close>

theorem str_strip_crlf_spec:
  assumes "str_inv s"
  shows "\<exists>s'. str_strip_crlf (Some s) = Inr (Some s') \<and>
           str_bytes s' = strip_trailing (str_bytes s) \<and>
           unat (len s') = length (strip_trailing (str_bytes s)) \<and>
           cap s' = cap s \<and> str_inv s' \<and>
           (str_bytes s = [] \<or> \<not> is_crlf (last (str_bytes s)) \<longrightarrow> s' = s)"
  using str_strip_crlf_result[OF assms] stripped_bytes[OF assms] stripped_len[OF assms]
    stripped_cap[of s] stripped_inv[OF assms] stripped_fixed[OF assms]
  by (intro exI[of _ "stripped s"]) simp

theorem str_strip_crlf_spec_witness:
  "str_inv \<lparr>data = Some [0x48, 0x69, 0x0D, 0x0A, 0], len = 4, cap = 5\<rparr> \<and>
   (\<exists>s'. str_strip_crlf (Some \<lparr>data = Some [0x48, 0x69, 0x0D, 0x0A, 0], len = 4, cap = 5\<rparr>)
            = Inr (Some s') \<and> str_bytes s' = [0x48, 0x69] \<and> unat (len s') = 2 \<and> cap s' = 5
          \<and> str_inv s')"
  using str_strip_crlf_spec[of "\<lparr>data = Some [0x48, 0x69, 0x0D, 0x0A, 0], len = 4, cap = 5\<rparr>"]
  by (auto simp add: str_inv_def str_bytes_def strip_trailing_def is_crlf_def)

subsection \<open>Applying a normaliser twice\<close>

text \<open>A buffer that starts with two byte order marks: the first call removes one, the
  second call removes the other, so the content after two calls differs from the content
  after one.\<close>

theorem strip_utf8_bom_twice_counterexample:
  "str_inv \<lparr>data = Some [0xEF, 0xBB, 0xBF, 0xEF, 0xBB, 0xBF, 0], len = 6, cap = 7\<rparr> \<and>
   str_remove_utf8_bom (Some \<lparr>data = Some [0xEF, 0xBB, 0xBF, 0xEF, 0xBB, 0xBF, 0], len = 6, cap = 7\<rparr>)
     = Inr (Some \<lparr>data = Some [0xEF, 0xBB, 0xBF, 0, 0xBB, 0xBF, 0], len = 3, cap = 7\<rparr>, True) \<and>
   str_remove_utf8_bom (Some \<lparr>data = Some [0xEF, 0xBB, 0xBF, 0, 0xBB, 0xBF, 0], len = 3, cap = 7\<rparr>)
     = Inr (Some \<lparr>data = Some [0, 0xBB, 0xBF, 0, 0xBB, 0xBF, 0], len = 0, cap = 7\<rparr>, True) \<and>
   str_bytes \<lparr>data = Some [0xEF, 0xBB, 0xBF, 0, 0xBB, 0xBF, 0], len = 3, cap = 7\<rparr>
     = [0xEF, 0xBB, 0xBF] \<and>
   str_bytes \<lparr>data = Some [0, 0xBB, 0xBF, 0, 0xBB, 0xBF, 0], len = 0, cap = 7\<rparr> = [] \<and>
   str_bytes \<lparr>data = Some [0, 0xBB, 0xBF, 0, 0xBB, 0xBF, 0], len = 0, cap = 7\<rparr>
     \<noteq> str_bytes \<lparr>data = Some [0xEF, 0xBB, 0xBF, 0, 0xBB, 0xBF, 0], len = 3, cap = 7\<rparr>"
  by (simp add: str_inv_def str_bytes_def str_remove_utf8_bom_def load_def store_def
      memmove_down_def)

text \<open>
  Claim C4, amended. \<^verbatim>\<open>str_strip_crlf\<close> is idempotent on every buffer that satisfies
  the invariant; \<^verbatim>\<open>str_remove_utf8_bom\<close> is idempotent on every such buffer that does
  not start with two consecutive byte order marks.
\<close>

theorem normalisers_idempotent:
  assumes "str_inv s"
  shows "(\<exists>s1. str_strip_crlf (Some s) = Inr (Some s1) \<and>
               str_strip_crlf (Some s1) = Inr (Some s1)) \<and>
         (take 6 (str_bytes s) \<noteq> utf8_bom @ utf8_bom \<longrightarrow>
            (\<exists>s1 r. str_remove_utf8_bom (Some s) = Inr (Some s1, r) \<and>
                    str_remove_utf8_bom (Some s1) = Inr (Some s1, False)))"
proof (intro conjI impI)
  show "\<exists>s1. str_strip_crlf (Some s) = Inr (Some s1) \<and> str_strip_crlf (Some s1) = Inr (Some s1)"
    using str_strip_crlf_result[OF assms] str_strip_crlf_result[OF stripped_inv[OF assms]]
      stripped_idem[OF assms]
    by (intro exI[of _ "stripped s"]) simp
next
  assume nd: "take 6 (str_bytes s) \<noteq> utf8_bom @ utf8_bom"
  show "\<exists>s1 r. str_remove_utf8_bom (Some s) = Inr (Some s1, r) \<and>
      str_remove_utf8_bom (Some s1) = Inr (Some s1, False)"
  proof (cases "3 \<le> len s \<and> take 3 (str_bytes s) = utf8_bom")
    case False
    then have "str_remove_utf8_bom (Some s) = Inr (Some s, False)"
      using str_remove_utf8_bom_result[OF assms] by simp
    then show ?thesis by blast
  next
    case True
    then have d: "data s \<noteq> None" by (cases "data s") (auto simp add: str_bytes_def utf8_bom_def)
    from True have l: "3 \<le> len s" by simp
    note p = bom_removed_props[OF assms l d]
    have "take 6 (str_bytes s) = take 3 (str_bytes s) @ take 3 (drop 3 (str_bytes s))"
      using take_add[of 3 3 "str_bytes s"] by simp
    then have "take 3 (str_bytes (bom_removed s)) \<noteq> utf8_bom"
      using nd True by (simp add: p(1))
    then have "str_remove_utf8_bom (Some (bom_removed s)) = Inr (Some (bom_removed s), False)"
      using str_remove_utf8_bom_result[OF p(4)] by simp
    moreover have "str_remove_utf8_bom (Some s) = Inr (Some (bom_removed s), True)"
      using str_remove_utf8_bom_result[OF assms] True by simp
    ultimately show ?thesis by blast
  qed
qed

theorem normalisers_idempotent_witness:
  "str_inv \<lparr>data = Some [0xEF, 0xBB, 0xBF, 0x68, 0x0A, 0], len = 5, cap = 6\<rparr> \<and>
   take 6 (str_bytes \<lparr>data = Some [0xEF, 0xBB, 0xBF, 0x68, 0x0A, 0], len = 5, cap = 6\<rparr>)
     \<noteq> utf8_bom @ utf8_bom \<and>
   (\<exists>s1. str_strip_crlf (Some \<lparr>data = Some [0xEF, 0xBB, 0xBF, 0x68, 0x0A, 0], len = 5, cap = 6\<rparr>)
            = Inr (Some s1) \<and> str_strip_crlf (Some s1) = Inr (Some s1)) \<and>
   (\<exists>s1 r. str_remove_utf8_bom (Some \<lparr>data = Some [0xEF, 0xBB, 0xBF, 0x68, 0x0A, 0], len = 5, cap = 6\<rparr>)
            = Inr (Some s1, r) \<and> str_remove_utf8_bom (Some s1) = Inr (Some s1, False))"
proof -
  have inv: "str_inv \<lparr>data = Some [0xEF, 0xBB, 0xBF, 0x68, 0x0A, 0], len = 5, cap = 6\<rparr>"
    by (simp add: str_inv_def)
  have nd: "take 6 (str_bytes \<lparr>data = Some [0xEF, 0xBB, 0xBF, 0x68, 0x0A, 0], len = 5, cap = 6\<rparr>)
      \<noteq> utf8_bom @ utf8_bom"
    by (simp add: str_bytes_def utf8_bom_def)
  from normalisers_idempotent[OF inv] inv nd show ?thesis by blast
qed

section \<open>Null pointers\<close>

text \<open>
  Claim C9. With a null \<^verbatim>\<open>String*\<close> the functions \<^verbatim>\<open>str_free\<close>,
  \<^verbatim>\<open>str_reserve\<close>, \<^verbatim>\<open>str_push_back\<close>, \<^verbatim>\<open>str_concat\<close> (null destination or null
  source), \<^verbatim>\<open>str_remove_utf8_bom\<close> and \<^verbatim>\<open>str_strip_crlf\<close> touch nothing and do
  not fault, \<^verbatim>\<open>str_remove_utf8_bom\<close> returning false; \<^verbatim>\<open>str_data\<close> returns the
  empty C string, not a null pointer; \<^verbatim>\<open>str_validate_utf8\<close> and
  \<^verbatim>\<open>str_preflight_utf8\<close> return true.
\<close>

theorem null_pointer_total:
  "str_free None = None \<and>
   str_reserve None new_cap a = None \<and>
   str_push_back None c a = Inr None \<and>
   str_concat None src a = Inr None \<and>
   str_concat dest None a = Inr dest \<and>
   str_remove_utf8_bom None = Inr (None, False) \<and>
   str_strip_crlf None = Inr None \<and>
   str_data None = Some [0] \<and>
   strlen [0] = Inr 0 \<and>
   str_validate_utf8 None = Some (Inr True) \<and>
   str_preflight_utf8 None = Some (Inr (True, []))"
  by (simp add: str_free_def str_reserve_def str_push_back_def str_concat_def
      str_remove_utf8_bom_def str_strip_crlf_def str_data_def str_validate_utf8_def
      str_preflight_utf8_def split: option.splits)

section \<open>Concatenation into a new buffer\<close>

lemma strlen_bound: "strlen src = Inr l \<Longrightarrow> l < length src"
  by (induction src arbitrary: l) (auto split: if_splits sum.splits)

lemma strlen_zero: "strlen src = Inr l \<Longrightarrow> src ! l = 0"
  by (induction src arbitrary: l) (auto split: if_splits sum.splits)

lemma strlen_nonzero: "strlen src = Inr l \<Longrightarrow> 0 \<notin> set (take l src)"
  by (induction src arbitrary: l) (auto split: if_splits sum.splits)

lemma strlen_terminated:
  "n < length blk \<Longrightarrow> blk ! n = 0 \<Longrightarrow> 0 \<notin> set (take n blk) \<Longrightarrow> strlen blk = Inr n"
proof (induction blk arbitrary: n)
  case Nil
  then show ?case by simp
next
  case (Cons b bs)
  show ?case
  proof (cases n)
    case 0
    with Cons.prems show ?thesis by simp
  next
    case (Suc m)
    with Cons.prems have "strlen bs = Inr m" "b \<noteq> 0"
      by (auto intro: Cons.IH)
    then show ?thesis using Suc by simp
  qed
qed

lemma from_cstr_copy:
  assumes sl: "strlen src = Inr l" and fit: "l + 1 < 2 ^ 64"
  shows "str_from_cstr (Some src) (Some f) =
     Inr \<lparr>data = Some (take (Suc l) src), len = of_nat l, cap = of_nat l + 1\<rparr>"
proof -
  have lb: "l < length src" using strlen_bound[OF sl] .
  have ul: "unat (of_nat l :: size_t) = l" using fit by (simp add: unat_of_nat)
  have uc: "unat (of_nat l + 1 :: size_t) = Suc l"
    using fit ul unat_add_nowrap[of "of_nat l" 1] by simp
  have mc: "memcpy (map f [0..<Suc l]) 0 src (Suc l) = Inr (take (Suc l) src)"
    using lb by (simp add: memcpy_def)
  show ?thesis
    by (simp add: str_from_cstr_def sl str_init_def malloc_def uc mc Let_def del: upt_Suc)
qed

lemma from_cstr_props:
  assumes sl: "strlen src = Inr l" and fit: "l + 1 < 2 ^ 64"
  defines "r \<equiv> \<lparr>data = Some (take (Suc l) src), len = of_nat l, cap = of_nat l + 1\<rparr>"
  shows "str_bytes r = take l src" and "str_inv r" and "data r \<noteq> None"
    and "unat (cap r) = length (str_bytes r) + 1"
proof -
  have lb: "l < length src" using strlen_bound[OF sl] .
  have ul: "unat (of_nat l :: size_t) = l" using fit by (simp add: unat_of_nat)
  have uc: "unat (of_nat l + 1 :: size_t) = Suc l"
    using fit ul unat_add_nowrap[of "of_nat l" 1] by simp
  show "str_bytes r = take l src" by (simp add: r_def str_bytes_def ul min_def)
  show "str_inv r"
    using lb strlen_zero[OF sl] by (simp add: r_def str_inv_def ul uc word_less_nat_alt)
  show "data r \<noteq> None" by (simp add: r_def)
  show "unat (cap r) = length (str_bytes r) + 1"
    using lb by (simp add: r_def str_bytes_def ul uc)
qed

lemma str_plus_left_empty:
  "\<not> has_storage s1 \<Longrightarrow> str_plus s1 s2 a = str_from_cstr (str_data s2) a"
  by (auto simp add: has_storage_def str_plus_def split: option.splits)

lemma str_plus_right_empty:
  "has_storage s1 \<Longrightarrow> \<not> has_storage s2 \<Longrightarrow> str_plus s1 s2 a = str_from_cstr (str_data s1) a"
  by (auto simp add: has_storage_def str_plus_def split: option.splits)

lemma copy_of_side:
  assumes inv: "opt_inv sp" and nz: "0 \<notin> set (opt_bytes sp)"
  shows "\<exists>r. str_from_cstr (str_data sp) (Some f) = Inr r \<and> str_bytes r = opt_bytes sp \<and>
            str_inv r \<and> data r \<noteq> None \<and> unat (cap r) = length (str_bytes r) + 1"
proof -
  obtain src l where sd: "str_data sp = Some src" and sl: "strlen src = Inr l"
    and fit: "l + 1 < 2 ^ 64" and "take l src = opt_bytes sp"
  proof (cases "has_storage sp")
    case False
    then have "str_data sp = Some [0]" "opt_bytes sp = []"
      by (auto simp add: has_storage_def str_data_def opt_bytes_def str_bytes_def split: option.splits)
    then show ?thesis using that[of "[0]" 0] by simp
  next
    case True
    then obtain s blk where sp: "sp = Some s" and d: "data s = Some blk"
      by (auto simp add: has_storage_def split: option.splits)
    have si: "str_inv s" using inv sp by (simp add: opt_inv_def)
    have b: "unat (len s) < length blk" using str_inv_bound[OF si d] .
    have z: "blk ! unat (len s) = 0" and c: "length blk = unat (cap s)"
      using si by (simp_all add: str_inv_Some[OF d])
    have "0 \<notin> set (take (unat (len s)) blk)"
      using nz by (simp add: sp opt_bytes_def str_bytes_Some[OF d])
    from strlen_terminated[OF b z this] have sl: "strlen blk = Inr (unat (len s))" .
    have "unat (cap s) < 2 ^ 64" using unsigned_less[of "cap s", where ?'a = nat] by simp
    then have fit: "unat (len s) + 1 < 2 ^ 64" using b c by simp
    show ?thesis
      using that[of blk "unat (len s)"] sl fit
      by (simp add: sp str_data_def d opt_bytes_def str_bytes_Some[OF d])
  qed
  from from_cstr_copy[OF sl fit, of f] from_cstr_props[OF sl fit] \<open>take l src = opt_bytes sp\<close>
  show ?thesis by (simp add: sd)
qed

lemma str_plus_both:
  assumes d1: "data a = Some blk1" and d2: "data b = Some blk2"
    and i1: "str_inv a" and i2: "str_inv b"
    and fit: "unat (len a) + unat (len b) + 1 < 2 ^ 64"
  shows "str_plus (Some a) (Some b) (Some f) =
     Inr \<lparr>data = Some (take (unat (len a)) blk1 @ take (Suc (unat (len b))) blk2),
          len = len a + len b, cap = len a + len b + 1\<rparr>"
proof -
  define n1 where "n1 = unat (len a)"
  define n2 where "n2 = unat (len b)"
  have b1: "n1 < length blk1" unfolding n1_def using str_inv_bound[OF i1 d1] .
  have b2: "n2 < length blk2" unfolding n2_def using str_inv_bound[OF i2 d2] .
  have ut: "unat (len a + len b) = n1 + n2"
    using fit by (simp add: unat_add_nowrap n1_def n2_def)
  have uc: "unat (len a + len b + 1) = Suc (n1 + n2)"
    using fit ut unat_add_nowrap[of "len a + len b" 1] by (simp add: n1_def n2_def)
  have u2: "unat (len b + 1) = Suc n2"
    using fit unat_add_nowrap[of "len b" 1] by (simp add: n2_def)
  define r where "r = map f [0..<Suc (n1 + n2)]"
  have lr: "length r = Suc (n1 + n2)" by (simp add: r_def)
  have m1: "memcpy r 0 blk1 n1 = Inr (take n1 blk1 @ drop n1 r)"
    using b1 lr by (simp add: memcpy_def)
  have m2: "memcpy (take n1 blk1 @ drop n1 r) n1 blk2 (Suc n2)
      = Inr (take n1 blk1 @ take (Suc n2) blk2)"
    using b1 b2 lr by (simp add: memcpy_def)
  show ?thesis
    unfolding n1_def[symmetric] n2_def[symmetric]
    by (simp add: str_plus_def d1 d2 str_init_def malloc_def uc u2 Let_def
        r_def[symmetric] m1 m2 n1_def[symmetric] n2_def[symmetric] del: upt_Suc)
qed

lemma str_plus_result:
  assumes "opt_inv s1" and "opt_inv s2"
    and "length (opt_bytes s1) + length (opt_bytes s2) + 1 < 2 ^ 64"
    and "\<not> (has_storage s1 \<and> has_storage s2) \<longrightarrow>
           0 \<notin> set (opt_bytes s1) \<and> 0 \<notin> set (opt_bytes s2)"
  shows "\<exists>r. str_plus s1 s2 (Some f) = Inr r \<and>
              str_bytes r = opt_bytes s1 @ opt_bytes s2 \<and>
              str_inv r \<and> data r \<noteq> None \<and> unat (cap r) = length (str_bytes r) + 1"
proof (cases "has_storage s1")
  case False
  then have e: "opt_bytes s1 = []"
    by (auto simp add: has_storage_def opt_bytes_def str_bytes_def split: option.splits)
  have nz: "0 \<notin> set (opt_bytes s2)" using assms(4) False by simp
  from copy_of_side[OF assms(2) nz, of f] show ?thesis
    by (simp add: str_plus_left_empty[OF False] e)
next
  case True
  show ?thesis
  proof (cases "has_storage s2")
    case False
    then have e: "opt_bytes s2 = []"
      by (auto simp add: has_storage_def opt_bytes_def str_bytes_def split: option.splits)
    have nz: "0 \<notin> set (opt_bytes s1)" using assms(4) False by simp
    from copy_of_side[OF assms(1) nz, of f] show ?thesis
      by (simp add: str_plus_right_empty[OF True False] e)
  next
    case s2: True
    from True obtain a blk1 where a: "s1 = Some a" and d1: "data a = Some blk1"
      by (auto simp add: has_storage_def split: option.splits)
    from s2 obtain b blk2 where b: "s2 = Some b" and d2: "data b = Some blk2"
      by (auto simp add: has_storage_def split: option.splits)
    have i1: "str_inv a" and i2: "str_inv b"
      using assms(1,2) by (simp_all add: a b opt_inv_def)
    have b1: "unat (len a) < length blk1" using str_inv_bound[OF i1 d1] .
    have b2: "unat (len b) < length blk2" using str_inv_bound[OF i2 d2] .
    have z2: "blk2 ! unat (len b) = 0" using i2 by (simp add: str_inv_Some[OF d2])
    have fit: "unat (len a) + unat (len b) + 1 < 2 ^ 64"
      using assms(3) b1 b2
      by (simp add: a b opt_bytes_def str_bytes_Some[OF d1] str_bytes_Some[OF d2] min_def)
    have ut: "unat (len a + len b) = unat (len a) + unat (len b)"
      using fit by (simp add: unat_add_nowrap)
    have uc: "unat (len a + len b + 1) = Suc (unat (len a) + unat (len b))"
      using fit ut unat_add_nowrap[of "len a + len b" 1] by simp
    define r where "r = \<lparr>data = Some (take (unat (len a)) blk1 @ take (Suc (unat (len b))) blk2),
          len = len a + len b, cap = len a + len b + 1\<rparr>"
    have res: "str_plus s1 s2 (Some f) = Inr r"
      unfolding r_def a b by (rule str_plus_both[OF d1 d2 i1 i2 fit])
    have bts: "str_bytes r = opt_bytes s1 @ opt_bytes s2"
      using b1 b2
      by (simp add: r_def str_bytes_def ut a b opt_bytes_def d1 d2 min_def)
    have "len a + len b < len a + len b + 1"
      by (simp add: word_less_nat_alt ut uc)
    then have inv: "str_inv r"
      using b1 b2 z2
      by (simp add: r_def str_inv_def ut uc min_def nth_append)
    have "unat (cap r) = length (str_bytes r) + 1"
      using b1 b2 by (simp add: bts a b opt_bytes_def str_bytes_Some[OF d1] str_bytes_Some[OF d2] min_def)
        (simp add: r_def uc)
    with res bts inv show ?thesis by (auto simp add: r_def)
  qed
qed

text \<open>Without zero bytes in the contents, both groupings of three buffers give the
  same bytes.\<close>

lemma str_plus_associative:
  assumes inv: "opt_inv a" "opt_inv b" "opt_inv c"
    and nz: "0 \<notin> set (opt_bytes a)" "0 \<notin> set (opt_bytes b)" "0 \<notin> set (opt_bytes c)"
    and fit: "length (opt_bytes a) + length (opt_bytes b) + length (opt_bytes c) + 1 < 2 ^ 64"
  shows "\<exists>ab ab_c bc a_bc.
           str_plus a b (Some f1) = Inr ab \<and> str_plus (Some ab) c (Some f2) = Inr ab_c \<and>
           str_plus b c (Some f3) = Inr bc \<and> str_plus a (Some bc) (Some f4) = Inr a_bc \<and>
           str_bytes ab_c = opt_bytes a @ opt_bytes b @ opt_bytes c \<and>
           str_bytes a_bc = opt_bytes a @ opt_bytes b @ opt_bytes c"
proof -
  from str_plus_result[OF inv(1,2), of f1] nz fit
  obtain ab where ab: "str_plus a b (Some f1) = Inr ab" "str_bytes ab = opt_bytes a @ opt_bytes b"
    "str_inv ab" by auto
  from str_plus_result[OF inv(2,3), of f3] nz fit
  obtain bc where bc: "str_plus b c (Some f3) = Inr bc" "str_bytes bc = opt_bytes b @ opt_bytes c"
    "str_inv bc" by auto
  have iab: "opt_inv (Some ab)" "opt_bytes (Some ab) = opt_bytes a @ opt_bytes b"
    using ab by (simp_all add: opt_inv_def opt_bytes_def)
  have ibc: "opt_inv (Some bc)" "opt_bytes (Some bc) = opt_bytes b @ opt_bytes c"
    using bc by (simp_all add: opt_inv_def opt_bytes_def)
  from str_plus_result[OF iab(1) inv(3), of f2] nz fit
  obtain ab_c where l: "str_plus (Some ab) c (Some f2) = Inr ab_c"
    "str_bytes ab_c = (opt_bytes a @ opt_bytes b) @ opt_bytes c"
    by (auto simp add: iab(2))
  from str_plus_result[OF inv(1) ibc(1), of f4] nz fit
  obtain a_bc where r: "str_plus a (Some bc) (Some f4) = Inr a_bc"
    "str_bytes a_bc = opt_bytes a @ opt_bytes b @ opt_bytes c"
    by (auto simp add: ibc(2))
  from ab bc l r show ?thesis by simp
qed

text \<open>Two buffers without storage: the result is not the buffer of \<^verbatim>\<open>str_init\<close>
  but a buffer with a one-byte storage and capacity 1.\<close>

theorem str_plus_both_empty_counterexample:
  "str_plus (Some str_init) (Some str_init) (Some (\<lambda>_. 0xAA))
     = Inr \<lparr>data = Some [0], len = 0, cap = 1\<rparr> \<and>
   data \<lparr>data = Some [0], len = 0, cap = 1 :: size_t\<rparr> \<noteq> None \<and>
   cap \<lparr>data = Some [0], len = 0 :: size_t, cap = 1\<rparr> \<noteq> 0 \<and>
   \<lparr>data = Some [0], len = 0, cap = 1\<rparr> \<noteq> str_init"
  by (simp add: str_plus_def str_init_def str_data_def str_from_cstr_def malloc_def
      memcpy_def and_then_def)

text \<open>
  Claim C6, amended. For two arguments that satisfy the invariant, when \<^verbatim>\<open>malloc\<close>
  succeeds and the combined length fits in \<^verbatim>\<open>size_t\<close>, \<^verbatim>\<open>str_plus\<close> returns a new
  buffer that satisfies the invariant, has storage of capacity length + 1 and holds the
  bytes of the first argument followed by the bytes of the second, provided that, when a
  side has no storage, the content of the other side contains no zero byte. So with
  exactly one side without storage the result is a copy of the other side, and with both
  sides without storage it is an empty content in a one-byte storage.
\<close>

theorem str_plus_concatenates:
  assumes "opt_inv s1" and "opt_inv s2"
    and "length (opt_bytes s1) + length (opt_bytes s2) + 1 < 2 ^ 64"
    and "\<not> (has_storage s1 \<and> has_storage s2) \<longrightarrow>
           0 \<notin> set (opt_bytes s1) \<and> 0 \<notin> set (opt_bytes s2)"
  shows "\<exists>r. str_plus s1 s2 (Some f) = Inr r \<and>
              str_bytes r = opt_bytes s1 @ opt_bytes s2 \<and>
              str_inv r \<and> data r \<noteq> None \<and> unat (cap r) = length (str_bytes r) + 1"
  using str_plus_result[OF assms] .

theorem str_plus_concatenates_witness:
  "opt_inv (Some \<lparr>data = Some [0x61, 0x62, 0], len = 2, cap = 3\<rparr>) \<and>
   opt_inv (Some \<lparr>data = Some [0x63, 0], len = 1, cap = 2\<rparr>) \<and>
   (\<exists>r. str_plus (Some \<lparr>data = Some [0x61, 0x62, 0], len = 2, cap = 3\<rparr>)
              (Some \<lparr>data = Some [0x63, 0], len = 1, cap = 2\<rparr>) (Some (\<lambda>_. 0xAA)) = Inr r \<and>
        str_bytes r = [0x61, 0x62, 0x63] \<and> str_inv r) \<and>
   (\<exists>r. str_plus None (Some \<lparr>data = Some [0x63, 0], len = 1, cap = 2\<rparr>) (Some (\<lambda>_. 0xAA)) = Inr r \<and>
        str_bytes r = [0x63] \<and> str_inv r)"
proof -
  have i1: "opt_inv (Some \<lparr>data = Some [0x61, 0x62, 0], len = 2, cap = 3\<rparr>)"
    by (simp add: opt_inv_def str_inv_def)
  have i2: "opt_inv (Some \<lparr>data = Some [0x63, 0], len = 1, cap = 2\<rparr>)"
    by (simp add: opt_inv_def str_inv_def)
  have i0: "opt_inv None" by (simp add: opt_inv_def)
  have bts: "opt_bytes (Some \<lparr>data = Some [0x61, 0x62, 0], len = 2, cap = 3\<rparr>) = [0x61, 0x62]"
    "opt_bytes (Some \<lparr>data = Some [0x63, 0], len = 1, cap = 2\<rparr>) = [0x63]"
    "opt_bytes None = []"
    by (simp_all add: opt_bytes_def str_bytes_def)
  have a: "\<exists>r. str_plus (Some \<lparr>data = Some [0x61, 0x62, 0], len = 2, cap = 3\<rparr>)
              (Some \<lparr>data = Some [0x63, 0], len = 1, cap = 2\<rparr>) (Some (\<lambda>_. 0xAA)) = Inr r \<and>
        str_bytes r = [0x61, 0x62, 0x63] \<and> str_inv r"
    using str_plus_concatenates[OF i1 i2, of "\<lambda>_. 0xAA"]
    by (auto simp add: bts has_storage_def)
  have b: "\<exists>r. str_plus None (Some \<lparr>data = Some [0x63, 0], len = 1, cap = 2\<rparr>) (Some (\<lambda>_. 0xAA)) = Inr r \<and>
        str_bytes r = [0x63] \<and> str_inv r"
    using str_plus_concatenates[OF i0 i2, of "\<lambda>_. 0xAA"]
    by (auto simp add: bts has_storage_def)
  from i1 i2 a b show ?thesis by blast
qed

text \<open>
  Claim C5. \<^verbatim>\<open>str_plus\<close> is not associative on contents with an embedded zero byte.
  The buffer \<open>x 00 y\<close> is built by \<^verbatim>\<open>str_from_cstr\<close> and two calls of
  \<^verbatim>\<open>str_push_back\<close>; with \<open>a\<close> the buffer without storage and \<open>c\<close> the buffer
  \<open>z\<close>, \<open>plus(plus(a,b),c)\<close> holds \<open>x z\<close> and \<open>plus(a,plus(b,c))\<close> holds \<open>x\<close>:
  the branch for a side without storage copies the other side with \<^verbatim>\<open>strlen\<close>, the
  branch for two sides with storage copies by length.
\<close>

theorem str_plus_embedded_zero_not_associative:
  "str_from_cstr (Some [0x78, 0]) (Some (\<lambda>_. 0xAA))
     = Inr \<lparr>data = Some [0x78, 0], len = 1, cap = 2\<rparr> \<and>
   str_push_back (Some \<lparr>data = Some [0x78, 0], len = 1, cap = 2\<rparr>) 0 (Some (\<lambda>_. 0xAA))
     = Inr (Some \<lparr>data = Some [0x78, 0, 0, 0xAA], len = 2, cap = 4\<rparr>) \<and>
   str_push_back (Some \<lparr>data = Some [0x78, 0, 0, 0xAA], len = 2, cap = 4\<rparr>) 0x79 (Some (\<lambda>_. 0xAA))
     = Inr (Some \<lparr>data = Some [0x78, 0, 0x79, 0], len = 3, cap = 4\<rparr>) \<and>
   str_inv str_init \<and>
   str_inv \<lparr>data = Some [0x78, 0, 0x79, 0], len = 3, cap = 4\<rparr> \<and>
   str_inv \<lparr>data = Some [0x7A, 0], len = 1, cap = 2\<rparr> \<and>
   str_plus (Some str_init) (Some \<lparr>data = Some [0x78, 0, 0x79, 0], len = 3, cap = 4\<rparr>)
       (Some (\<lambda>_. 0xAA))
     = Inr \<lparr>data = Some [0x78, 0], len = 1, cap = 2\<rparr> \<and>
   str_plus (Some \<lparr>data = Some [0x78, 0], len = 1, cap = 2\<rparr>)
       (Some \<lparr>data = Some [0x7A, 0], len = 1, cap = 2\<rparr>) (Some (\<lambda>_. 0xAA))
     = Inr \<lparr>data = Some [0x78, 0x7A, 0], len = 2, cap = 3\<rparr> \<and>
   str_plus (Some \<lparr>data = Some [0x78, 0, 0x79, 0], len = 3, cap = 4\<rparr>)
       (Some \<lparr>data = Some [0x7A, 0], len = 1, cap = 2\<rparr>) (Some (\<lambda>_. 0xAA))
     = Inr \<lparr>data = Some [0x78, 0, 0x79, 0x7A, 0], len = 4, cap = 5\<rparr> \<and>
   str_plus (Some str_init) (Some \<lparr>data = Some [0x78, 0, 0x79, 0x7A, 0], len = 4, cap = 5\<rparr>)
       (Some (\<lambda>_. 0xAA))
     = Inr \<lparr>data = Some [0x78, 0], len = 1, cap = 2\<rparr> \<and>
   str_bytes \<lparr>data = Some [0x78, 0x7A, 0], len = 2, cap = 3\<rparr> = [0x78, 0x7A] \<and>
   str_bytes \<lparr>data = Some [0x78, 0], len = 1, cap = 2\<rparr> = [0x78]"
  by code_simp

section \<open>Growth in place\<close>

text \<open>When the allocation succeeds and the sizes do not wrap, \<^verbatim>\<open>str_reserve\<close>,
  \<^verbatim>\<open>str_push_back\<close> and \<^verbatim>\<open>str_concat\<close> keep the invariant; \<^verbatim>\<open>str_push_back\<close>
  appends one byte and \<^verbatim>\<open>str_concat\<close> the bytes of its source.\<close>

lemma str_init_inv: "str_inv str_init"
  by (simp add: str_inv_def str_init_def)

lemma str_free_result: "str_free (Some s) = Some str_init"
  by (simp add: str_free_def str_init_def)

lemma str_reserve_failure: "str_reserve s new_cap None = s"
  by (simp add: str_reserve_def realloc_def split: option.splits)

lemma str_reserve_enough: "new_cap \<le> cap s \<Longrightarrow> str_reserve (Some s) new_cap a = Some s"
  by (auto simp add: str_reserve_def)

lemma str_reserve_grow:
  assumes inv: "str_inv s" and d: "data s = Some blk" and g: "cap s < new_cap"
  shows "str_reserve (Some s) new_cap (Some f) =
           Some (s\<lparr>data := Some (blk @ map f [unat (cap s)..<unat new_cap]), cap := new_cap\<rparr>)"
    and "str_inv (s\<lparr>data := Some (blk @ map f [unat (cap s)..<unat new_cap]), cap := new_cap\<rparr>)"
    and "str_bytes (s\<lparr>data := Some (blk @ map f [unat (cap s)..<unat new_cap]), cap := new_cap\<rparr>)
           = str_bytes s"
proof -
  have c: "length blk = unat (cap s)" and lc: "len s < cap s" and z: "blk ! unat (len s) = 0"
    using inv by (simp_all add: str_inv_Some[OF d])
  have ug: "unat (cap s) < unat new_cap" using g by (simp add: word_less_nat_alt)
  have ul: "unat (len s) < unat (cap s)" using lc by (simp add: word_less_nat_alt)
  show "str_reserve (Some s) new_cap (Some f) =
           Some (s\<lparr>data := Some (blk @ map f [unat (cap s)..<unat new_cap]), cap := new_cap\<rparr>)"
    using g c ug by (simp add: str_reserve_def realloc_def d)
  show "str_inv (s\<lparr>data := Some (blk @ map f [unat (cap s)..<unat new_cap]), cap := new_cap\<rparr>)"
    using c ug ul z lc g by (simp add: str_inv_def nth_append)
  show "str_bytes (s\<lparr>data := Some (blk @ map f [unat (cap s)..<unat new_cap]), cap := new_cap\<rparr>)
           = str_bytes s"
    using c ul by (simp add: str_bytes_def d)
qed

lemma str_push_back_room:
  assumes inv: "str_inv s" and d: "data s = Some blk" and r: "len s + 1 < cap s"
  shows "str_push_back (Some s) c a =
     Inr (Some (s\<lparr>data := Some (blk[unat (len s) := c, Suc (unat (len s)) := 0]),
                  len := len s + 1\<rparr>))"
proof -
  have cl: "length blk = unat (cap s)" and lc: "len s < cap s"
    using inv by (simp_all add: str_inv_Some[OF d])
  have ul: "unat (len s) < unat (cap s)" using lc by (simp add: word_less_nat_alt)
  have "unat (cap s) < 2 ^ 64" using unsigned_less[of "cap s", where ?'a = nat] by simp
  then have u1: "unat (len s + 1) = Suc (unat (len s))"
    using ul unat_add_nowrap[of "len s" 1] by simp
  have ur: "Suc (unat (len s)) < unat (cap s)" using r by (simp add: word_less_nat_alt u1)
  have nr: "\<not> cap s \<le> len s + 1" using r by simp
  show ?thesis
    using ul ur cl by (simp add: str_push_back_def nr d store_def u1 Let_def)
qed

lemma push_back_props:
  assumes len_eq: "length blk = unat (cap' :: size_t)" and n: "Suc n < unat cap'"
    and l: "unat (l :: size_t) = n" and l1: "unat (l + 1) = Suc n"
  shows "str_inv \<lparr>data = Some (blk[n := c, Suc n := 0]), len = l + 1, cap = cap'\<rparr>"
    and "str_bytes \<lparr>data = Some (blk[n := c, Suc n := 0]), len = l + 1, cap = cap'\<rparr>
           = take n blk @ [c]"
proof -
  show "str_inv \<lparr>data = Some (blk[n := c, Suc n := 0]), len = l + 1, cap = cap'\<rparr>"
    using len_eq n by (simp add: str_inv_def l1 word_less_nat_alt)
  have "take (Suc n) (blk[n := c, Suc n := 0]) = take n blk @ [c]"
    using len_eq n by (simp add: take_Suc_conv_app_nth)
  then show "str_bytes \<lparr>data = Some (blk[n := c, Suc n := 0]), len = l + 1, cap = cap'\<rparr>
           = take n blk @ [c]"
    by (simp add: str_bytes_def l1)
qed


lemma str_push_back_appends:
  assumes inv: "str_inv s" and fit: "unat (cap s) < 2 ^ 63"
  shows "\<exists>s'. str_push_back (Some s) c (Some f) = Inr (Some s') \<and> str_inv s' \<and>
              str_bytes s' = str_bytes s @ [c] \<and> len s' = len s + 1 \<and> cap s \<le> cap s'"
proof (cases "data s")
  case None
  then have e: "len s = 0" "cap s = 0" using inv by (simp_all add: str_inv_def)
  have "str_push_back (Some s) c (Some f) = Inr (Some (s\<lparr>data := Some [c, 0], len := 1, cap := 2\<rparr>))"
    by (simp add: str_push_back_def e str_reserve_def realloc_def None store_def Let_def upt_rec)
  moreover have "str_inv (s\<lparr>data := Some [c, 0], len := 1, cap := 2\<rparr>)"
    by (simp add: str_inv_def)
  moreover have "str_bytes (s\<lparr>data := Some [c, 0], len := 1, cap := 2\<rparr>) = str_bytes s @ [c]"
    by (simp add: str_bytes_def None)
  ultimately show ?thesis using e by simp
next
  case (Some blk)
  have cl: "length blk = unat (cap s)" and lc: "len s < cap s"
    using inv by (simp_all add: str_inv_Some[OF Some])
  have ul: "unat (len s) < unat (cap s)" using lc by (simp add: word_less_nat_alt)
  have u1: "unat (len s + 1) = Suc (unat (len s))"
    using ul fit unat_add_nowrap[of "len s" 1] by simp
  show ?thesis
  proof (cases "len s + 1 < cap s")
    case True
    then have ur: "Suc (unat (len s)) < unat (cap s)" by (simp add: word_less_nat_alt u1)
    have eq: "s\<lparr>data := Some (blk[unat (len s) := c, Suc (unat (len s)) := 0]), len := len s + 1\<rparr>
        = \<lparr>data = Some (blk[unat (len s) := c, Suc (unat (len s)) := 0]), len = len s + 1, cap = cap s\<rparr>"
      by simp
    from push_back_props[OF cl ur refl u1, of c] str_push_back_room[OF inv Some True, of c "Some f"]
    show ?thesis
      by (simp add: eq str_bytes_Some[OF Some])
  next
    case False
    then have full: "cap s \<le> len s + 1" by simp
    have nz: "cap s \<noteq> 0" using lc by auto
    have u2: "unat (cap s * 2) = 2 * unat (cap s)"
      using fit unat_mult_lem[of "cap s" 2] by simp
    have g: "cap s < cap s * 2"
      using ul by (simp add: word_less_nat_alt u2)
    define blk' where "blk' = blk @ map f [unat (cap s)..<unat (cap s * 2)]"
    have lb: "length blk' = unat (cap s * 2)" using cl g by (simp add: blk'_def word_less_nat_alt)
    have ur: "Suc (unat (len s)) < unat (cap s * 2)" using ul u2 by simp
    have tk: "take (unat (len s)) blk' = take (unat (len s)) blk"
      using ul cl by (simp add: blk'_def)
    have rs: "str_reserve (Some s) (cap s * 2) (Some f) = Some (s\<lparr>data := Some blk', cap := cap s * 2\<rparr>)"
      unfolding blk'_def by (rule str_reserve_grow(1)[OF inv Some g])
    have "str_push_back (Some s) c (Some f) =
        Inr (Some \<lparr>data = Some (blk'[unat (len s) := c, Suc (unat (len s)) := 0]),
               len = len s + 1, cap = cap s * 2\<rparr>)"
      using ur lb by (simp add: str_push_back_def full nz rs store_def u1 Let_def)
    with push_back_props[OF lb ur refl u1, of c] g show ?thesis
      by (simp add: tk str_bytes_Some[OF Some])
  qed
qed

lemma concat_block:
  assumes "nd + Suc ns \<le> length dblk" and "ns < length sblk"
  defines "B \<equiv> take nd dblk @ take (Suc ns) sblk @ drop (nd + Suc ns) dblk"
  shows "memcpy dblk nd sblk (Suc ns) = Inr B" and "length B = length dblk"
    and "take (nd + ns) B = take nd dblk @ take ns sblk" and "B ! (nd + ns) = sblk ! ns"
proof -
  show "memcpy dblk nd sblk (Suc ns) = Inr B" using assms(1,2) by (simp add: memcpy_def B_def)
  show "length B = length dblk" using assms(1,2) by (simp add: B_def)
  have l: "length (take nd dblk) = nd" using assms(1) by simp
  show "take (nd + ns) B = take nd dblk @ take ns sblk"
    using assms(1,2) by (simp add: B_def l min_def)
  have "B ! (nd + ns) = (take (Suc ns) sblk @ drop (nd + Suc ns) dblk) ! ns"
    unfolding B_def using l by (metis nth_append_length_plus)
  then show "B ! (nd + ns) = sblk ! ns" using assms(2) by (simp add: nth_append)
qed

lemma concat_into_block:
  assumes s: "data s = Some sblk" and invs: "str_inv s"
    and d1: "data d1 = Some dblk" and c1: "length dblk = unat (cap d1)"
    and fit: "unat (len d1) + unat (len s) + 1 \<le> unat (cap d1)"
  shows "\<exists>B. memcpy dblk (unat (len d1)) sblk (unat (len s + 1)) = Inr B \<and>
            str_inv (d1\<lparr>data := Some B, len := len d1 + len s\<rparr>) \<and>
            str_bytes (d1\<lparr>data := Some B, len := len d1 + len s\<rparr>)
              = take (unat (len d1)) dblk @ str_bytes s"
proof -
  have bs: "unat (len s) < length sblk" using str_inv_bound[OF invs s] .
  have zs: "sblk ! unat (len s) = 0" using invs by (simp add: str_inv_Some[OF s])
  have c64: "unat (cap d1) < 2 ^ 64" using unsigned_less[of "cap d1", where ?'a = nat] by simp
  have u1: "unat (len s + 1) = Suc (unat (len s))"
    using fit c64 unat_add_nowrap[of "len s" 1] by simp
  have ut: "unat (len d1 + len s) = unat (len d1) + unat (len s)"
    using fit c64 by (simp add: unat_add_nowrap)
  have le: "unat (len d1) + Suc (unat (len s)) \<le> length dblk" using fit c1 by simp
  note cb = concat_block[OF le bs]
  have lt: "len d1 + len s < cap d1" using fit by (simp add: word_less_nat_alt ut)
  show ?thesis
    using cb c1 lt zs
    by (intro exI[of _ "take (unat (len d1)) dblk @ take (Suc (unat (len s))) sblk
          @ drop (unat (len d1) + Suc (unat (len s))) dblk"])
       (simp add: u1 str_inv_def str_bytes_def ut s)
qed

lemma str_concat_appends:
  assumes invd: "str_inv d" and invs: "str_inv s"
    and fit: "unat (len d) + unat (len s) + 1 < 2 ^ 64"
  shows "\<exists>d'. str_concat (Some d) (Some s) (Some f) = Inr (Some d') \<and> str_inv d' \<and>
              str_bytes d' = str_bytes d @ str_bytes s"
proof (cases "data s")
  case None
  then show ?thesis using invd by (simp add: str_concat_def str_bytes_def)
next
  case (Some sblk)
  define needed where "needed = len d + len s + 1"
  have ut: "unat (len d + len s) = unat (len d) + unat (len s)"
    using fit by (simp add: unat_add_nowrap)
  have un: "unat needed = unat (len d) + unat (len s) + 1"
    using fit ut unat_add_nowrap[of "len d + len s" 1] by (simp add: needed_def)
  have sc: "str_concat (Some d) (Some s) (Some f) =
      (case (if needed > cap d then str_reserve (Some d) needed (Some f) else Some d) of
         None \<Rightarrow> Inr None
       | Some d1 \<Rightarrow>
           (case data d1 of
              None \<Rightarrow> Inr (Some d1)
            | Some dblk \<Rightarrow>
                and_then (memcpy dblk (unat (len d1)) sblk (unat (len s + 1)))
                  (\<lambda>dblk'. Inr (Some (d1\<lparr>data := Some dblk', len := len d1 + len s\<rparr>)))))"
    by (simp add: str_concat_def Some Let_def needed_def)
  have step: "\<exists>d'. str_concat (Some d) (Some s) (Some f) = Inr (Some d') \<and> str_inv d' \<and>
              str_bytes d' = str_bytes d @ str_bytes s"
    if r: "(if needed > cap d then str_reserve (Some d) needed (Some f) else Some d) = Some d1"
      and dd1: "data d1 = Some dblk" and c1: "length dblk = unat (cap d1)"
      and le1: "unat (len d1) + unat (len s) + 1 \<le> unat (cap d1)"
      and bytes: "take (unat (len d1)) dblk = str_bytes d"
    for d1 dblk
  proof -
    from concat_into_block[OF Some invs dd1 c1 le1] obtain B where
      m: "memcpy dblk (unat (len d1)) sblk (unat (len s + 1)) = Inr B"
      and i: "str_inv (d1\<lparr>data := Some B, len := len d1 + len s\<rparr>)"
      and b: "str_bytes (d1\<lparr>data := Some B, len := len d1 + len s\<rparr>)
              = take (unat (len d1)) dblk @ str_bytes s"
      by blast
    have "str_concat (Some d) (Some s) (Some f)
        = Inr (Some (d1\<lparr>data := Some B, len := len d1 + len s\<rparr>))"
      unfolding sc r by (simp add: dd1 m)
    with i b bytes show ?thesis by simp
  qed
  show ?thesis
  proof (cases "cap d < needed")
    case False
    then have le: "unat (len d) + unat (len s) + 1 \<le> unat (cap d)"
      by (simp add: word_less_nat_alt un not_less)
    then obtain dblk where dd: "data d = Some dblk"
      using invd by (cases "data d") (auto simp add: str_inv_def)
    have c: "length dblk = unat (cap d)" using invd by (simp add: str_inv_Some[OF dd])
    show ?thesis
      using False by (intro step[OF _ dd c le]) (simp_all add: str_bytes_Some[OF dd])
  next
    case True
    show ?thesis
    proof (cases "data d")
      case None
      then have e: "len d = 0" "cap d = 0" using invd by (simp_all add: str_inv_def)
      define d1 where "d1 = d\<lparr>data := Some (map f [0..<unat needed]), cap := needed\<rparr>"
      have rs: "str_reserve (Some d) needed (Some f) = Some d1"
        using True by (simp add: str_reserve_def realloc_def None d1_def)
      have dd1: "data d1 = Some (map f [0..<unat needed])" by (simp add: d1_def)
      have c1: "length (map f [0..<unat needed]) = unat (cap d1)" by (simp add: d1_def)
      have le1: "unat (len d1) + unat (len s) + 1 \<le> unat (cap d1)"
        by (simp add: d1_def un e)
      have by1: "take (unat (len d1)) (map f [0..<unat needed]) = str_bytes d"
        by (simp add: d1_def e str_bytes_None[OF None])
      show ?thesis
        using True rs by (intro step[OF _ dd1 c1 le1 by1]) simp
    next
      case (Some dblk)
      note dd = Some
      define d1 where "d1 = d\<lparr>data := Some (dblk @ map f [unat (cap d)..<unat needed]), cap := needed\<rparr>"
      have rs: "str_reserve (Some d) needed (Some f) = Some d1"
        unfolding d1_def by (rule str_reserve_grow(1)[OF invd dd True])
      have dd1: "data d1 = Some (dblk @ map f [unat (cap d)..<unat needed])" by (simp add: d1_def)
      have c: "length dblk = unat (cap d)" using invd by (simp add: str_inv_Some[OF dd])
      have ug: "unat (cap d) < unat needed" using True by (simp add: word_less_nat_alt)
      have c1: "length (dblk @ map f [unat (cap d)..<unat needed]) = unat (cap d1)"
        using c ug by (simp add: d1_def)
      have le1: "unat (len d1) + unat (len s) + 1 \<le> unat (cap d1)"
        by (simp add: d1_def un)
      have bd: "unat (len d) < length dblk" using str_inv_bound[OF invd dd] .
      have by1: "take (unat (len d1)) (dblk @ map f [unat (cap d)..<unat needed]) = str_bytes d"
        using bd by (simp add: d1_def str_bytes_Some[OF dd])
      show ?thesis
        using True rs by (intro step[OF _ dd1 c1 le1 by1]) simp
    qed
  qed
qed

section \<open>Allocation failure\<close>

text \<open>A failed \<^verbatim>\<open>realloc\<close> changes nothing while the buffer has no storage; on a
  buffer with storage that is full, \<^verbatim>\<open>str_push_back\<close> writes the terminator one byte
  past the end of the storage.\<close>

lemma str_push_back_failure_no_storage:
  "data s = None \<Longrightarrow> str_push_back (Some s) c None = Inr (Some s)"
  by (simp add: str_push_back_def str_reserve_failure)

lemma str_concat_failure_no_storage:
  "data d = None \<Longrightarrow> str_concat (Some d) (Some s) None = Inr (Some d)"
  by (simp add: str_concat_def str_reserve_failure Let_def split: option.splits)

lemma str_push_back_failure_full:
  assumes inv: "str_inv s" and d: "data s \<noteq> None" and full: "cap s \<le> len s + 1"
  shows "str_push_back (Some s) c None = Inl OutOfBounds"
proof -
  from d obtain blk where d: "data s = Some blk" by auto
  have cl: "length blk = unat (cap s)" and lc: "len s < cap s"
    using inv by (simp_all add: str_inv_Some[OF d])
  have ul: "unat (len s) < unat (cap s)" using lc by (simp add: word_less_nat_alt)
  have "unat (cap s) < 2 ^ 64" using unsigned_less[of "cap s", where ?'a = nat] by simp
  then have u1: "unat (len s + 1) = Suc (unat (len s))"
    using ul unat_add_nowrap[of "len s" 1] by simp
  have "unat (cap s) \<le> Suc (unat (len s))" using full by (simp add: word_le_nat_alt u1)
  then have out: "\<not> Suc (unat (len s)) < length blk" using cl by simp
  show ?thesis
    using ul cl out
    by (simp add: str_push_back_def full str_reserve_failure d store_def u1 Let_def)
qed

text \<open>
  Claim C2. A buffer made by \<^verbatim>\<open>str_from_cstr\<close> is full. When \<^verbatim>\<open>realloc\<close> fails,
  \<^verbatim>\<open>str_reserve\<close> leaves it unchanged, but \<^verbatim>\<open>str_push_back\<close> and
  \<^verbatim>\<open>str_concat\<close> go on to write through the old pointer, past the end of the
  storage.
\<close>

theorem allocation_failure_overruns:
  "str_from_cstr (Some [0x61, 0]) (Some (\<lambda>_. 0xAA))
     = Inr \<lparr>data = Some [0x61, 0], len = 1, cap = 2\<rparr> \<and>
   str_inv \<lparr>data = Some [0x61, 0], len = 1, cap = 2\<rparr> \<and>
   str_inv \<lparr>data = Some [0x62, 0], len = 1, cap = 2\<rparr> \<and>
   str_reserve (Some \<lparr>data = Some [0x61, 0], len = 1, cap = 2\<rparr>) 4 None
     = Some \<lparr>data = Some [0x61, 0], len = 1, cap = 2\<rparr> \<and>
   str_push_back (Some \<lparr>data = Some [0x61, 0], len = 1, cap = 2\<rparr>) 0x62 None
     = Inl OutOfBounds \<and>
   str_concat (Some \<lparr>data = Some [0x61, 0], len = 1, cap = 2\<rparr>)
       (Some \<lparr>data = Some [0x62, 0], len = 1, cap = 2\<rparr>) None
     = Inl OutOfBounds"
  by code_simp

text \<open>
  Claim C3. When \<^verbatim>\<open>malloc\<close> fails, \<^verbatim>\<open>str_from_cstr\<close> and \<^verbatim>\<open>str_plus\<close> return a
  buffer without storage whose capacity is not 0, which breaks the invariant (and on which
  \<^verbatim>\<open>str_push_back\<close> never allocates); \<^verbatim>\<open>str_reserve\<close> on a buffer without storage
  leaves the byte at offset \<open>len\<close> indeterminate.
\<close>

theorem allocation_failure_breaks_invariant:
  "str_from_cstr (Some [0x61, 0]) None = Inr \<lparr>data = None, len = 0, cap = 2\<rparr> \<and>
   str_plus (Some \<lparr>data = Some [0x61, 0], len = 1, cap = 2\<rparr>)
       (Some \<lparr>data = Some [0x62, 0], len = 1, cap = 2\<rparr>) None
     = Inr \<lparr>data = None, len = 0, cap = 3\<rparr> \<and>
   \<not> str_inv \<lparr>data = None, len = 0, cap = 2\<rparr> \<and>
   \<not> str_inv \<lparr>data = None, len = 0, cap = 3\<rparr> \<and>
   \<lparr>data = None, len = 0, cap = 2\<rparr> \<noteq> str_init \<and>
   str_push_back (Some \<lparr>data = None, len = 0, cap = 2\<rparr>) 0x62 (Some (\<lambda>_. 0xAA))
     = Inr (Some \<lparr>data = None, len = 0, cap = 2\<rparr>) \<and>
   str_inv str_init \<and>
   str_reserve (Some str_init) 2 (Some (\<lambda>_. 0xAA))
     = Some \<lparr>data = Some [0xAA, 0xAA], len = 0, cap = 2\<rparr> \<and>
   \<not> str_inv \<lparr>data = Some [0xAA, 0xAA], len = 0, cap = 2\<rparr>"
  by code_simp

end
